theory Spec2Isabelle
  imports Main "HOL-Library.Word" "HOL-Library.Char_ord" "HOL-Library.List_Lexorder"
    "HOL-Library.Sublist"
begin

section \<open>The invariant manager of stellar-core (invariant/InvariantManagerImpl.cpp)\<close>

subsection \<open>Data model\<close>

text \<open>
  A \<^verbatim>\<open>std::shared_ptr<Invariant>\<close> is an address; \<^verbatim>\<open>std::find\<close> over
  \<^verbatim>\<open>mEnabled\<close> compares addresses, so two objects with equal names stay different
  references. The objects themselves live in a store \<open>h\<close> from addresses to objects, which
  no function of the manager writes to.
\<close>

type_synonym ptr = nat

record LedgerHeader =
  ledgerVersion :: "32 word"
  ledgerSeq :: "32 word"

record 'c LedgerDelta =
  getHeader :: LedgerHeader
  changes :: 'c

text \<open>
  The \<^verbatim>\<open>Invariant\<close> interface: a name, a strictness flag and three virtual check
  operations, each returning a \<^verbatim>\<open>std::string\<close> that is empty when the invariant
  holds. The types of buckets (\<open>'b\<close>), operations (\<open>'o\<close>), operation results (\<open>'r\<close>)
  and ledger changes (\<open>'c\<close>) are opaque to the manager.
\<close>

record ('c, 'b, 'o, 'r) Invariant =
  getName :: string
  isStrict :: bool
  Invariant_checkOnLedgerClose :: "'c LedgerDelta \<Rightarrow> string"
  Invariant_checkOnBucketApply :: "'b \<Rightarrow> 32 word \<Rightarrow> 32 word \<Rightarrow> string"
  Invariant_checkOnOperationApply :: "'o \<Rightarrow> 'r \<Rightarrow> 'c LedgerDelta \<Rightarrow> string"

text \<open>
  What the manager calls outside this file: the XDR printer on a transaction set
  (\<^verbatim>\<open>txSet->toXDR\<close> followed by \<^verbatim>\<open>xdr::xdr_to_string\<close>) and on an operation, the hex
  rendering of a bucket's hash (\<^verbatim>\<open>binToHex(bucket->getHash())\<close>), and the four functions
  of \<^verbatim>\<open>BucketList\<close>, each taking \<^verbatim>\<open>(ledger, level)\<close>. They are parameters of the model.
\<close>

record ('t, 'b, 'o) Externals =
  xdr_to_string_txset :: "'t \<Rightarrow> string"
  xdr_to_string_operation :: "'o \<Rightarrow> string"
  binToHex_getHash :: "'b \<Rightarrow> string"
  oldestLedgerInCurr :: "32 word \<Rightarrow> 32 word \<Rightarrow> 32 word"
  oldestLedgerInSnap :: "32 word \<Rightarrow> 32 word \<Rightarrow> 32 word"
  sizeOfCurr :: "32 word \<Rightarrow> 32 word \<Rightarrow> 32 word"
  sizeOfSnap :: "32 word \<Rightarrow> 32 word \<Rightarrow> 32 word"

datatype exn = runtime_error string | InvariantDoesNotHold string

datatype outcome = Returns | Throws exn

datatype level = FATAL | ERROR

type_synonym MetricName = "string \<times> string \<times> string"

text \<open>
  The calls that leave the manager, in the order they are made: an invariant's check
  operation (with the ledger range for a bucket), the increment of a counter, a record
  written to the \<^verbatim>\<open>"Invariant"\<close> logger.
\<close>

datatype event =
    CallCheckOnLedgerClose ptr
  | CallCheckOnBucketApply ptr "32 word" "32 word"
  | CallCheckOnOperationApply ptr
  | CounterInc MetricName
  | CLOG level string

text \<open>
  The manager's two members, the metrics registry it holds a reference to, and the
  sequence of outbound calls made so far (a record kept by the model, so that what is
  called, and in which order, can be stated). The members are declared in
  \<^verbatim>\<open>InvariantManagerImpl.h\<close>; this file uses \<^verbatim>\<open>mInvariants\<close> as a \<^verbatim>\<open>std::map\<close> from
  names to references (\<^verbatim>\<open>find\<close>, \<^verbatim>\<open>operator[]\<close>, \<^verbatim>\<open>cbegin\<close>, a \<^verbatim>\<open>value_type\<close> with a
  \<^verbatim>\<open>first\<close>): its entries are kept in ascending key order, which is the order
  \<^verbatim>\<open>cbegin() .. cend()\<close> visits them in; \<^verbatim>\<open>mEnabled\<close> is a vector of references
  (\<^verbatim>\<open>push_back\<close>, \<^verbatim>\<open>std::find\<close>).
\<close>

record Manager =
  mInvariants :: "(string \<times> ptr) list"
  mEnabled :: "ptr list"
  mMetricsRegistry :: "MetricName \<rightharpoonup> int"
  calls :: "event list"

text \<open>The constructor: both containers empty, over a given metrics registry.\<close>

definition InvariantManagerImpl :: "(MetricName \<rightharpoonup> int) \<Rightarrow> Manager" where
  "InvariantManagerImpl registry =
     \<lparr>mInvariants = [], mEnabled = [], mMetricsRegistry = registry, calls = []\<rparr>"

subsection \<open>The containers and services used\<close>

text \<open>\<^verbatim>\<open>std::map::find\<close>: the mapped value, or \<open>None\<close> for \<^verbatim>\<open>end()\<close>.\<close>

fun map_find :: "string \<Rightarrow> (string \<times> 'v) list \<Rightarrow> 'v option" where
  "map_find k [] = None"
| "map_find k ((k', v) # m) = (if k = k' then Some v else map_find k m)"

text \<open>
  \<^verbatim>\<open>m[k] = v\<close> on a \<^verbatim>\<open>std::map\<close>: replaces the value of an existing key, and inserts
  a new key at its place in the key order (\<^verbatim>\<open>std::less<std::string>\<close>, the
  lexicographic order on bytes).
\<close>

fun map_assign :: "string \<Rightarrow> 'v \<Rightarrow> (string \<times> 'v) list \<Rightarrow> (string \<times> 'v) list" where
  "map_assign k v [] = [(k, v)]"
| "map_assign k v ((k', v') # m) =
     (if k < k' then (k, v) # (k', v') # m
      else if k = k' then (k, v) # m
      else (k', v') # map_assign k v m)"

text \<open>
  Modelled from the spec: \<^verbatim>\<open>medida::MetricsRegistry::NewCounter\<close> and
  \<^verbatim>\<open>medida::Counter::inc\<close> belong to the metrics library, outside this file. The spec
  describes a monotonically increasing counter addressable by its composite key, created at
  zero by registration and incremented by the failure handler: \<open>NewCounter\<close> gives the
  counter of that key, creating it at zero when there is none, and \<open>inc\<close> adds one to it.
\<close>

definition NewCounter :: "MetricName \<Rightarrow> (MetricName \<rightharpoonup> int) \<Rightarrow> (MetricName \<rightharpoonup> int)" where
  "NewCounter k reg = (case reg k of None \<Rightarrow> reg(k \<mapsto> 0) | Some c \<Rightarrow> reg)"

definition inc :: "MetricName \<Rightarrow> (MetricName \<rightharpoonup> int) \<Rightarrow> (MetricName \<rightharpoonup> int)" where
  "inc k reg = (case reg k of None \<Rightarrow> reg | Some c \<Rightarrow> reg(k \<mapsto> c + 1))"

definition counterName :: "string \<Rightarrow> MetricName" where
  "counterName name = (''invariant'', ''does-not-hold'', name)"

text \<open>\<^verbatim>\<open>fmt::format("{}", n)\<close> for an unsigned integer: its decimal digits.\<close>

fun decimal :: "nat \<Rightarrow> string" where
  "decimal n =
     (if n < 10 then [char_of (48 + n)]
      else decimal (n div 10) @ [char_of (48 + n mod 10)])"

declare decimal.simps [simp del]

definition fmt_u32 :: "32 word \<Rightarrow> string" where
  "fmt_u32 w = decimal (unat w)"

definition dquote :: string where
  "dquote = [CHR 0x22]"

definition newline :: string where
  "newline = [CHR 0x0A]"

subsection \<open>The failure handler\<close>

definition handleInvariantFailure ::
  "(ptr \<Rightarrow> ('c, 'b, 'o, 'r) Invariant) \<Rightarrow> ptr \<Rightarrow> string \<Rightarrow> Manager \<Rightarrow> outcome \<times> Manager" where
  "handleInvariantFailure h invariant message s =
     (if isStrict (h invariant)
      then (Throws (InvariantDoesNotHold message),
            s\<lparr>calls := calls s @ [CLOG FATAL message]\<rparr>)
      else (Returns, s\<lparr>calls := calls s @ [CLOG ERROR message]\<rparr>))"

definition onInvariantFailure ::
  "(ptr \<Rightarrow> ('c, 'b, 'o, 'r) Invariant) \<Rightarrow> ptr \<Rightarrow> string \<Rightarrow> Manager \<Rightarrow> outcome \<times> Manager" where
  "onInvariantFailure h invariant message s =
     (let k = counterName (getName (h invariant));
          s1 = s\<lparr>mMetricsRegistry := inc k (NewCounter k (mMetricsRegistry s)),
                 calls := calls s @ [CounterInc k]\<rparr>
      in handleInvariantFailure h invariant message s1)"

subsection \<open>The three stages of the dispatcher\<close>

text \<open>
  Each loop runs over \<^verbatim>\<open>mEnabled\<close>, which its body does not change, so the model
  recurses over the vector's elements. An exception leaves the loop with the state as it
  is at the throw.
\<close>

fun checkOnLedgerClose_loop ::
  "(ptr \<Rightarrow> ('c, 'b, 'o, 'r) Invariant) \<Rightarrow> ('t, 'b, 'o) Externals \<Rightarrow> 't \<Rightarrow> 'c LedgerDelta \<Rightarrow>
   ptr list \<Rightarrow> Manager \<Rightarrow> outcome \<times> Manager" where
  "checkOnLedgerClose_loop h ext txSet delta [] s = (Returns, s)"
| "checkOnLedgerClose_loop h ext txSet delta (invariant # rest) s =
     (let result = Invariant_checkOnLedgerClose (h invariant) delta;
          s1 = s\<lparr>calls := calls s @ [CallCheckOnLedgerClose invariant]\<rparr>
      in if result = [] then checkOnLedgerClose_loop h ext txSet delta rest s1
         else
           let message =
                 ''invariant '' @ dquote @ getName (h invariant) @ dquote @
                 '' does not hold on ledger '' @ fmt_u32 (ledgerSeq (getHeader delta)) @
                 '': '' @ result @ newline @ xdr_to_string_txset ext txSet
           in case onInvariantFailure h invariant message s1 of
                (Throws e, s2) \<Rightarrow> (Throws e, s2)
              | (Returns, s2) \<Rightarrow> checkOnLedgerClose_loop h ext txSet delta rest s2)"

definition checkOnLedgerClose ::
  "(ptr \<Rightarrow> ('c, 'b, 'o, 'r) Invariant) \<Rightarrow> ('t, 'b, 'o) Externals \<Rightarrow> 't \<Rightarrow> 'c LedgerDelta \<Rightarrow>
   Manager \<Rightarrow> outcome \<times> Manager" where
  "checkOnLedgerClose h ext txSet delta s =
     checkOnLedgerClose_loop h ext txSet delta (mEnabled s) s"

fun checkOnBucketApply_loop ::
  "(ptr \<Rightarrow> ('c, 'b, 'o, 'r) Invariant) \<Rightarrow> ('t, 'b, 'o) Externals \<Rightarrow> 'b \<Rightarrow> 32 word \<Rightarrow> bool \<Rightarrow>
   32 word \<Rightarrow> 32 word \<Rightarrow> ptr list \<Rightarrow> Manager \<Rightarrow> outcome \<times> Manager" where
  "checkOnBucketApply_loop h ext bucket level isCurr oldestLedger newestLedger [] s =
     (Returns, s)"
| "checkOnBucketApply_loop h ext bucket level isCurr oldestLedger newestLedger
     (invariant # rest) s =
     (let result = Invariant_checkOnBucketApply (h invariant) bucket oldestLedger newestLedger;
          s1 = s\<lparr>calls := calls s @
                   [CallCheckOnBucketApply invariant oldestLedger newestLedger]\<rparr>
      in if result = []
         then checkOnBucketApply_loop h ext bucket level isCurr oldestLedger newestLedger rest s1
         else
           let message =
                 ''invariant '' @ dquote @ getName (h invariant) @ dquote @
                 '' does not hold on bucket '' @ (if isCurr then ''Curr'' else ''Snap'') @
                 ''['' @ fmt_u32 level @ ''] = '' @ binToHex_getHash ext bucket @
                 '': '' @ result
           in case onInvariantFailure h invariant message s1 of
                (Throws e, s2) \<Rightarrow> (Throws e, s2)
              | (Returns, s2) \<Rightarrow>
                  checkOnBucketApply_loop h ext bucket level isCurr oldestLedger newestLedger
                    rest s2)"

definition checkOnBucketApply ::
  "(ptr \<Rightarrow> ('c, 'b, 'o, 'r) Invariant) \<Rightarrow> ('t, 'b, 'o) Externals \<Rightarrow> 'b \<Rightarrow> 32 word \<Rightarrow> 32 word \<Rightarrow>
   bool \<Rightarrow> Manager \<Rightarrow> outcome \<times> Manager" where
  "checkOnBucketApply h ext bucket ledger level isCurr s =
     (let oldestLedger = (if isCurr then oldestLedgerInCurr ext ledger level
                          else oldestLedgerInSnap ext ledger level);
          newestLedger = oldestLedger - 1 +
                         (if isCurr then sizeOfCurr ext ledger level
                          else sizeOfSnap ext ledger level)
      in checkOnBucketApply_loop h ext bucket level isCurr oldestLedger newestLedger
           (mEnabled s) s)"

fun checkOnOperationApply_loop ::
  "(ptr \<Rightarrow> ('c, 'b, 'o, 'r) Invariant) \<Rightarrow> ('t, 'b, 'o) Externals \<Rightarrow> 'o \<Rightarrow> 'r \<Rightarrow> 'c LedgerDelta \<Rightarrow>
   ptr list \<Rightarrow> Manager \<Rightarrow> outcome \<times> Manager" where
  "checkOnOperationApply_loop h ext operation opres delta [] s = (Returns, s)"
| "checkOnOperationApply_loop h ext operation opres delta (invariant # rest) s =
     (let result = Invariant_checkOnOperationApply (h invariant) operation opres delta;
          s1 = s\<lparr>calls := calls s @ [CallCheckOnOperationApply invariant]\<rparr>
      in if result = []
         then checkOnOperationApply_loop h ext operation opres delta rest s1
         else
           let message =
                 ''Invariant '' @ dquote @ getName (h invariant) @ dquote @
                 '' does not hold on operation: '' @ result @ newline @
                 xdr_to_string_operation ext operation
           in case onInvariantFailure h invariant message s1 of
                (Throws e, s2) \<Rightarrow> (Throws e, s2)
              | (Returns, s2) \<Rightarrow>
                  checkOnOperationApply_loop h ext operation opres delta rest s2)"

definition checkOnOperationApply ::
  "(ptr \<Rightarrow> ('c, 'b, 'o, 'r) Invariant) \<Rightarrow> ('t, 'b, 'o) Externals \<Rightarrow> 'o \<Rightarrow> 'r \<Rightarrow> 'c LedgerDelta \<Rightarrow>
   Manager \<Rightarrow> outcome \<times> Manager" where
  "checkOnOperationApply h ext operation opres delta s =
     (if ledgerVersion (getHeader delta) < 8 then (Returns, s)
      else checkOnOperationApply_loop h ext operation opres delta (mEnabled s) s)"

subsection \<open>Registration and enablement\<close>

definition registerInvariant ::
  "(ptr \<Rightarrow> ('c, 'b, 'o, 'r) Invariant) \<Rightarrow> ptr \<Rightarrow> Manager \<Rightarrow> outcome \<times> Manager" where
  "registerInvariant h invariant s =
     (let name = getName (h invariant)
      in case map_find name (mInvariants s) of
           None \<Rightarrow>
             (Returns,
              s\<lparr>mInvariants := map_assign name invariant (mInvariants s),
                mMetricsRegistry :=
                  NewCounter (counterName (getName (h invariant))) (mMetricsRegistry s)\<rparr>)
         | Some _ \<Rightarrow>
             (Throws (runtime_error
                (''Invariant '' @ getName (h invariant) @ '' already registered'')), s))"

text \<open>
  The \<^verbatim>\<open>std::accumulate\<close> of the unknown-name branch: from the first key, over the
  entries after the first, joining with a comma and a space.
\<close>

definition enableInvariant :: "string \<Rightarrow> Manager \<Rightarrow> outcome \<times> Manager" where
  "enableInvariant name s =
     (case map_find name (mInvariants s) of
        None \<Rightarrow>
          (let message = ''Invariant '' @ name @ '' is not registered.'';
               message' =
                 (case mInvariants s of
                    first # rest \<Rightarrow>
                      message @ '' Registered invariants are: '' @
                      foldl (\<lambda>lhs rhs. lhs @ '', '' @ fst rhs) (fst first) rest
                  | [] \<Rightarrow> message @ '' There are no registered invariants'')
           in (Throws (runtime_error message'), s))
      | Some registered \<Rightarrow>
          (case List.find (\<lambda>p. p = registered) (mEnabled s) of
             None \<Rightarrow> (Returns, s\<lparr>mEnabled := mEnabled s @ [registered]\<rparr>)
           | Some _ \<Rightarrow>
               (Throws (runtime_error (''Invariant '' @ name @ '' already enabled'')), s)))"

subsection \<open>Sequences of configuration calls\<close>

text \<open>
  Initialisation is a sequence of \<^verbatim>\<open>registerInvariant\<close> and \<^verbatim>\<open>enableInvariant\<close> calls, in
  which the caller may catch an exception and go on: \<open>run\<close> keeps the state each call leaves,
  whatever its outcome. \<open>enableAll\<close> is a sequence of enable calls that stops at the first
  exception.
\<close>

datatype config_call = Register ptr | Enable string

definition config_step ::
  "(ptr \<Rightarrow> ('c, 'b, 'o, 'r) Invariant) \<Rightarrow> Manager \<Rightarrow> config_call \<Rightarrow> Manager" where
  "config_step h s c =
     (case c of Register invariant \<Rightarrow> snd (registerInvariant h invariant s)
              | Enable name \<Rightarrow> snd (enableInvariant name s))"

definition run ::
  "(ptr \<Rightarrow> ('c, 'b, 'o, 'r) Invariant) \<Rightarrow> config_call list \<Rightarrow> Manager \<Rightarrow> Manager" where
  "run h cs s = foldl (config_step h) s cs"

fun enableAll :: "string list \<Rightarrow> Manager \<Rightarrow> outcome \<times> Manager" where
  "enableAll [] s = (Returns, s)"
| "enableAll (name # names) s =
     (case enableInvariant name s of
        (Throws e, s') \<Rightarrow> (Throws e, s')
      | (Returns, s') \<Rightarrow> enableAll names s')"

subsection \<open>Notions used to state the properties\<close>

text \<open>
  The three loops have one shape: record the call of the check, and hand a non-empty verdict
  to \<open>onInvariantFailure\<close> with the stage's message. \<open>dispatch\<close> is that shape, over the
  call, the verdict and the message of a stage; each loop is proved equal to it below.
\<close>

fun dispatch ::
  "(ptr \<Rightarrow> ('c, 'b, 'o, 'r) Invariant) \<Rightarrow> (ptr \<Rightarrow> event) \<Rightarrow> (ptr \<Rightarrow> string) \<Rightarrow> (ptr \<Rightarrow> string) \<Rightarrow>
   ptr list \<Rightarrow> Manager \<Rightarrow> outcome \<times> Manager" where
  "dispatch h call verdict message [] s = (Returns, s)"
| "dispatch h call verdict message (p # ps) s =
     (let s1 = s\<lparr>calls := calls s @ [call p]\<rparr>
      in if verdict p = [] then dispatch h call verdict message ps s1
         else case onInvariantFailure h p (message p) s1 of
                (Throws e, s2) \<Rightarrow> (Throws e, s2)
              | (Returns, s2) \<Rightarrow> dispatch h call verdict message ps s2)"

text \<open>The verdict of each invariant at a stage, and the message the stage builds from it.\<close>

definition verdictOnLedgerClose ::
  "(ptr \<Rightarrow> ('c, 'b, 'o, 'r) Invariant) \<Rightarrow> 'c LedgerDelta \<Rightarrow> ptr \<Rightarrow> string" where
  "verdictOnLedgerClose h delta p = Invariant_checkOnLedgerClose (h p) delta"

definition messageOnLedgerClose ::
  "(ptr \<Rightarrow> ('c, 'b, 'o, 'r) Invariant) \<Rightarrow> ('t, 'b, 'o) Externals \<Rightarrow> 't \<Rightarrow> 'c LedgerDelta \<Rightarrow>
   ptr \<Rightarrow> string" where
  "messageOnLedgerClose h ext txSet delta p =
     ''invariant '' @ dquote @ getName (h p) @ dquote @
     '' does not hold on ledger '' @ fmt_u32 (ledgerSeq (getHeader delta)) @
     '': '' @ Invariant_checkOnLedgerClose (h p) delta @ newline @
     xdr_to_string_txset ext txSet"

definition verdictOnBucketApply ::
  "(ptr \<Rightarrow> ('c, 'b, 'o, 'r) Invariant) \<Rightarrow> 'b \<Rightarrow> 32 word \<Rightarrow> 32 word \<Rightarrow> ptr \<Rightarrow> string" where
  "verdictOnBucketApply h bucket oldestLedger newestLedger p =
     Invariant_checkOnBucketApply (h p) bucket oldestLedger newestLedger"

definition messageOnBucketApply ::
  "(ptr \<Rightarrow> ('c, 'b, 'o, 'r) Invariant) \<Rightarrow> ('t, 'b, 'o) Externals \<Rightarrow> 'b \<Rightarrow> 32 word \<Rightarrow> bool \<Rightarrow>
   32 word \<Rightarrow> 32 word \<Rightarrow> ptr \<Rightarrow> string" where
  "messageOnBucketApply h ext bucket level isCurr oldestLedger newestLedger p =
     ''invariant '' @ dquote @ getName (h p) @ dquote @
     '' does not hold on bucket '' @ (if isCurr then ''Curr'' else ''Snap'') @
     ''['' @ fmt_u32 level @ ''] = '' @ binToHex_getHash ext bucket @
     '': '' @ Invariant_checkOnBucketApply (h p) bucket oldestLedger newestLedger"

definition verdictOnOperationApply ::
  "(ptr \<Rightarrow> ('c, 'b, 'o, 'r) Invariant) \<Rightarrow> 'o \<Rightarrow> 'r \<Rightarrow> 'c LedgerDelta \<Rightarrow> ptr \<Rightarrow> string" where
  "verdictOnOperationApply h operation opres delta p =
     Invariant_checkOnOperationApply (h p) operation opres delta"

definition messageOnOperationApply ::
  "(ptr \<Rightarrow> ('c, 'b, 'o, 'r) Invariant) \<Rightarrow> ('t, 'b, 'o) Externals \<Rightarrow> 'o \<Rightarrow> 'r \<Rightarrow>
   'c LedgerDelta \<Rightarrow> ptr \<Rightarrow> string" where
  "messageOnOperationApply h ext operation opres delta p =
     ''Invariant '' @ dquote @ getName (h p) @ dquote @
     '' does not hold on operation: '' @
     Invariant_checkOnOperationApply (h p) operation opres delta @ newline @
     xdr_to_string_operation ext operation"

text \<open>
  An invariant halts a stage when it is strict and its verdict is not empty. \<open>checked\<close>
  is the part of the enablement list a stage gets through: up to and including the first
  invariant that halts it.
\<close>

definition halts ::
  "(ptr \<Rightarrow> ('c, 'b, 'o, 'r) Invariant) \<Rightarrow> (ptr \<Rightarrow> string) \<Rightarrow> ptr \<Rightarrow> bool" where
  "halts h verdict p = (verdict p \<noteq> [] \<and> isStrict (h p))"

fun checked :: "(ptr \<Rightarrow> bool) \<Rightarrow> ptr list \<Rightarrow> ptr list" where
  "checked stop [] = []"
| "checked stop (p # ps) = p # (if stop p then [] else checked stop ps)"

text \<open>The outbound calls of one failure event, and of one invariant's turn at a stage.\<close>

definition failureEvents ::
  "(ptr \<Rightarrow> ('c, 'b, 'o, 'r) Invariant) \<Rightarrow> (ptr \<Rightarrow> string) \<Rightarrow> ptr \<Rightarrow> event list" where
  "failureEvents h message p =
     [CounterInc (counterName (getName (h p))),
      CLOG (if isStrict (h p) then FATAL else ERROR) (message p)]"

definition stageEvents ::
  "(ptr \<Rightarrow> ('c, 'b, 'o, 'r) Invariant) \<Rightarrow> (ptr \<Rightarrow> event) \<Rightarrow> (ptr \<Rightarrow> string) \<Rightarrow> (ptr \<Rightarrow> string) \<Rightarrow>
   ptr \<Rightarrow> event list" where
  "stageEvents h call verdict message p =
     call p # (if verdict p = [] then [] else failureEvents h message p)"

definition bump ::
  "(ptr \<Rightarrow> ('c, 'b, 'o, 'r) Invariant) \<Rightarrow> (ptr \<Rightarrow> string) \<Rightarrow> (MetricName \<rightharpoonup> int) \<Rightarrow> ptr \<Rightarrow>
   (MetricName \<rightharpoonup> int)" where
  "bump h verdict reg p =
     (if verdict p = [] then reg
      else inc (counterName (getName (h p))) (NewCounter (counterName (getName (h p))) reg))"

text \<open>The invariants whose check operation a sequence of calls invokes, in order.\<close>

fun invoked :: "event list \<Rightarrow> ptr list" where
  "invoked [] = []"
| "invoked (CallCheckOnLedgerClose p # es) = p # invoked es"
| "invoked (CallCheckOnBucketApply p oldestLedger newestLedger # es) = p # invoked es"
| "invoked (CallCheckOnOperationApply p # es) = p # invoked es"
| "invoked (e # es) = invoked es"

text \<open>
  The ledger range of a bucket as the claims word it: the oldest ledger by the aging
  formula of the half, and the size of the half.
\<close>

definition oldestLedgerOf :: "('t, 'b, 'o) Externals \<Rightarrow> 32 word \<Rightarrow> 32 word \<Rightarrow> bool \<Rightarrow> 32 word" where
  "oldestLedgerOf ext ledger level isCurr =
     (if isCurr then oldestLedgerInCurr ext ledger level
      else oldestLedgerInSnap ext ledger level)"

definition sizeOf :: "('t, 'b, 'o) Externals \<Rightarrow> 32 word \<Rightarrow> 32 word \<Rightarrow> bool \<Rightarrow> 32 word" where
  "sizeOf ext ledger level isCurr =
     (if isCurr then sizeOfCurr ext ledger level else sizeOfSnap ext ledger level)"

definition newestLedgerOf :: "('t, 'b, 'o) Externals \<Rightarrow> 32 word \<Rightarrow> 32 word \<Rightarrow> bool \<Rightarrow> 32 word" where
  "newestLedgerOf ext ledger level isCurr =
     oldestLedgerOf ext ledger level isCurr + sizeOf ext ledger level isCurr - 1"

text \<open>The calls made between a state and a later one.\<close>

definition newCalls :: "Manager \<Rightarrow> Manager \<Rightarrow> event list" where
  "newCalls s s' = drop (length (calls s)) (calls s')"

text \<open>A list of names separated by a comma and a space.\<close>

fun joinNames :: "string list \<Rightarrow> string" where
  "joinNames [] = []"
| "joinNames [n] = n"
| "joinNames (n # ns) = n @ '', '' @ joinNames ns"

definition registeredNames :: "Manager \<Rightarrow> string set" where
  "registeredNames s = fst ` set (mInvariants s)"

text \<open>
  The state invariant of the manager: the registry's keys ascend strictly (so no name
  occurs twice), every entry is stored under the name of its object, every enabled
  reference is a value of the registry, and no reference is enabled twice.
\<close>

definition manager_inv :: "(ptr \<Rightarrow> ('c, 'b, 'o, 'r) Invariant) \<Rightarrow> Manager \<Rightarrow> bool" where
  "manager_inv h s =
     (sorted_wrt (<) (map fst (mInvariants s)) \<and>
      list_all (\<lambda>(n, p). getName (h p) = n) (mInvariants s) \<and>
      set (mEnabled s) \<subseteq> snd ` set (mInvariants s) \<and>
      distinct (mEnabled s))"

text \<open>
  Every counter of an invariant's name that exists on the metrics registry belongs to a
  registered name.
\<close>

definition counters_registered :: "Manager \<Rightarrow> bool" where
  "counters_registered s =
     (\<forall>n. mMetricsRegistry s (counterName n) \<noteq> None \<longrightarrow> map_find n (mInvariants s) \<noteq> None)"

subsection \<open>A concrete scenario\<close>

text \<open>
  Four invariant objects: at address 10 a strict one named A that never holds, at 20 a
  non-strict one named B that never holds, at 30 a strict one named C that always holds,
  and at every other address a non-strict one that always holds and is named A as well.
\<close>

definition ex_invariant :: "string \<Rightarrow> bool \<Rightarrow> string \<Rightarrow> (unit, unit, unit, unit) Invariant" where
  "ex_invariant name strict verdict =
     \<lparr>getName = name, isStrict = strict,
      Invariant_checkOnLedgerClose = (\<lambda>delta. verdict),
      Invariant_checkOnBucketApply = (\<lambda>bucket oldestLedger newestLedger. verdict),
      Invariant_checkOnOperationApply = (\<lambda>operation opres delta. verdict)\<rparr>"

definition ex_h :: "ptr \<Rightarrow> (unit, unit, unit, unit) Invariant" where
  "ex_h p =
     (if p = 10 then ex_invariant ''A'' True ''bad''
      else if p = 20 then ex_invariant ''B'' False ''odd''
      else if p = 30 then ex_invariant ''C'' True []
      else ex_invariant ''A'' False [])"

definition ex_ext :: "(unit, unit, unit) Externals" where
  "ex_ext =
     \<lparr>xdr_to_string_txset = (\<lambda>txSet. ''txs''),
      xdr_to_string_operation = (\<lambda>operation. ''op''),
      binToHex_getHash = (\<lambda>bucket. ''00ff''),
      oldestLedgerInCurr = (\<lambda>ledger level. 5),
      oldestLedgerInSnap = (\<lambda>ledger level. 1),
      sizeOfCurr = (\<lambda>ledger level. 4),
      sizeOfSnap = (\<lambda>ledger level. 4)\<rparr>"

definition ex_delta :: "32 word \<Rightarrow> unit LedgerDelta" where
  "ex_delta version =
     \<lparr>getHeader = \<lparr>ledgerVersion = version, ledgerSeq = 42\<rparr>, changes = ()\<rparr>"

definition ex_manager :: "ptr list \<Rightarrow> Manager" where
  "ex_manager enabled =
     \<lparr>mInvariants = [(''A'', 10), (''B'', 20), (''C'', 30)], mEnabled = enabled,
      mMetricsRegistry = Map.empty, calls = []\<rparr>"

text \<open>
  The manager after the three objects at 10, 20 and 30 are registered on a new manager over
  an empty metrics registry and the given names are enabled, all by calls of the manager's
  own operations.
\<close>

definition ex_configured :: "string list \<Rightarrow> Manager" where
  "ex_configured names =
     run ex_h (Register 10 # Register 20 # Register 30 # map Enable names)
       (InvariantManagerImpl Map.empty)"


section \<open>Properties\<close>

subsection \<open>The failure handler and the loops in closed form\<close>

lemma onInvariantFailure_eq:
  "onInvariantFailure h p msg s =
     (if isStrict (h p) then Throws (InvariantDoesNotHold msg) else Returns,
      s\<lparr>mMetricsRegistry :=
          inc (counterName (getName (h p)))
            (NewCounter (counterName (getName (h p))) (mMetricsRegistry s)),
        calls := calls s @ failureEvents h (\<lambda>_. msg) p\<rparr>)"
  by (simp add: onInvariantFailure_def handleInvariantFailure_def failureEvents_def Let_def)

lemma inc_NewCounter:
  "inc k (NewCounter k reg) = reg(k \<mapsto> (case reg k of None \<Rightarrow> 0 | Some c \<Rightarrow> c) + 1)"
  by (simp add: inc_def NewCounter_def split: option.splits)

lemma dispatch_eq:
  "dispatch h call verdict message invs s =
     (case List.find (halts h verdict) invs of
        None \<Rightarrow> Returns | Some p \<Rightarrow> Throws (InvariantDoesNotHold (message p)),
      s\<lparr>mMetricsRegistry :=
          foldl (bump h verdict) (mMetricsRegistry s) (checked (halts h verdict) invs),
        calls := calls s @
          concat (map (stageEvents h call verdict message) (checked (halts h verdict) invs))\<rparr>)"
proof (induction invs arbitrary: s)
  case Nil
  show ?case by simp
next
  case (Cons p ps)
  show ?case
    by (simp add: Cons.IH onInvariantFailure_eq halts_def stageEvents_def bump_def
        failureEvents_def Let_def)
qed

lemma checkOnLedgerClose_loop_dispatch:
  "checkOnLedgerClose_loop h ext txSet delta invs s =
   dispatch h CallCheckOnLedgerClose (verdictOnLedgerClose h delta)
     (messageOnLedgerClose h ext txSet delta) invs s"
proof (induction invs arbitrary: s)
  case Nil
  show ?case by simp
next
  case (Cons p ps)
  show ?case
    unfolding checkOnLedgerClose_loop.simps dispatch.simps Let_def Cons.IH
      messageOnLedgerClose_def verdictOnLedgerClose_def ..
qed

lemma checkOnBucketApply_loop_dispatch:
  "checkOnBucketApply_loop h ext bucket level isCurr oldestLedger newestLedger invs s =
   dispatch h (\<lambda>p. CallCheckOnBucketApply p oldestLedger newestLedger)
     (verdictOnBucketApply h bucket oldestLedger newestLedger)
     (messageOnBucketApply h ext bucket level isCurr oldestLedger newestLedger) invs s"
proof (induction invs arbitrary: s)
  case Nil
  show ?case by simp
next
  case (Cons p ps)
  show ?case
    unfolding checkOnBucketApply_loop.simps dispatch.simps Let_def Cons.IH
      messageOnBucketApply_def verdictOnBucketApply_def ..
qed

lemma checkOnOperationApply_loop_dispatch:
  "checkOnOperationApply_loop h ext operation opres delta invs s =
   dispatch h CallCheckOnOperationApply (verdictOnOperationApply h operation opres delta)
     (messageOnOperationApply h ext operation opres delta) invs s"
proof (induction invs arbitrary: s)
  case Nil
  show ?case by simp
next
  case (Cons p ps)
  show ?case
    unfolding checkOnOperationApply_loop.simps dispatch.simps Let_def Cons.IH
      messageOnOperationApply_def verdictOnOperationApply_def ..
qed

lemma invoked_append: "invoked (xs @ ys) = invoked xs @ invoked ys"
  by (induction xs rule: invoked.induct) simp_all

lemma invoked_failureEvents: "invoked (failureEvents h message p) = []"
  by (simp add: failureEvents_def)

lemma invoked_stageEvents:
  assumes "\<And>p. invoked [call p] = [p]"
  shows "invoked (concat (map (stageEvents h call verdict message) ps)) = ps"
proof (induction ps)
  case Nil
  show ?case by simp
next
  case (Cons p ps)
  have "invoked (stageEvents h call verdict message p) = [p]"
    using assms [of p] invoked_append [of "[call p]"]
    by (simp add: stageEvents_def invoked_failureEvents)
  with Cons show ?case by (simp add: invoked_append)
qed

lemma checked_prefix: "prefix (checked stop ps) ps"
  by (induction ps) simp_all

lemma checked_all: "\<forall>p\<in>set ps. \<not> stop p \<Longrightarrow> checked stop ps = ps"
  by (induction ps) simp_all

lemma find_none: "\<forall>p\<in>set ps. \<not> stop p \<Longrightarrow> List.find stop ps = None"
  by (simp add: find_None_iff)

lemma checked_reached:
  "\<forall>q\<in>set ps. \<not> stop q \<Longrightarrow> p \<in> set (checked stop (ps @ p # rest))"
  by (induction ps) simp_all

lemma checked_subset: "set (checked stop ps) \<subseteq> set ps"
  by (induction ps) auto

lemma newCalls_dispatch:
  "newCalls s (snd (dispatch h call verdict message invs s)) =
   concat (map (stageEvents h call verdict message) (checked (halts h verdict) invs))"
  by (simp add: dispatch_eq newCalls_def)

lemma call_in_stageEvents:
  "p \<in> set ps \<Longrightarrow> call p \<in> set (concat (map (stageEvents h call verdict message) ps))"
  by (auto simp: stageEvents_def)


lemma checkOnLedgerClose_eq:
  "checkOnLedgerClose h ext txSet delta s =
   dispatch h CallCheckOnLedgerClose (verdictOnLedgerClose h delta)
     (messageOnLedgerClose h ext txSet delta) (mEnabled s) s"
  by (simp add: checkOnLedgerClose_def checkOnLedgerClose_loop_dispatch)

lemma checkOnBucketApply_eq:
  "checkOnBucketApply h ext bucket ledger level isCurr s =
   dispatch h
     (\<lambda>p. CallCheckOnBucketApply p (oldestLedgerOf ext ledger level isCurr)
        (newestLedgerOf ext ledger level isCurr))
     (verdictOnBucketApply h bucket (oldestLedgerOf ext ledger level isCurr)
        (newestLedgerOf ext ledger level isCurr))
     (messageOnBucketApply h ext bucket level isCurr (oldestLedgerOf ext ledger level isCurr)
        (newestLedgerOf ext ledger level isCurr))
     (mEnabled s) s"
proof -
  have "oldestLedgerOf ext ledger level isCurr - 1 + sizeOf ext ledger level isCurr =
        newestLedgerOf ext ledger level isCurr"
    by (simp add: newestLedgerOf_def)
  then show ?thesis
    by (simp only: checkOnBucketApply_def checkOnBucketApply_loop_dispatch Let_def
        oldestLedgerOf_def [symmetric] sizeOf_def [symmetric])
qed

lemma checkOnOperationApply_eq:
  "checkOnOperationApply h ext operation opres delta s =
   (if ledgerVersion (getHeader delta) < 8 then (Returns, s)
    else dispatch h CallCheckOnOperationApply (verdictOnOperationApply h operation opres delta)
     (messageOnOperationApply h ext operation opres delta) (mEnabled s) s)"
  by (simp add: checkOnOperationApply_def checkOnOperationApply_loop_dispatch)

lemma newCalls_same: "newCalls s s = []"
  by (simp add: newCalls_def)


lemma enableInvariant_Returns:
  assumes "enableInvariant name s = (Returns, s')"
  shows "\<exists>p. map_find name (mInvariants s) = Some p \<and> p \<notin> set (mEnabled s) \<and>
             s' = s\<lparr>mEnabled := mEnabled s @ [p]\<rparr>"
  using assms
  by (auto simp: enableInvariant_def Let_def find_None_iff split: option.splits)

lemma enableAll_Returns:
  "enableAll names s = (Returns, s') \<Longrightarrow>
   \<exists>ps. map Some ps = map (\<lambda>n. map_find n (mInvariants s)) names \<and>
        s' = s\<lparr>mEnabled := mEnabled s @ ps\<rparr>"
proof (induction names arbitrary: s)
  case Nil
  then show ?case by simp
next
  case (Cons name names)
  obtain r s1 where first: "enableInvariant name s = (r, s1)"
    by (cases "enableInvariant name s")
  with Cons.prems have r: "r = Returns" and rest: "enableAll names s1 = (Returns, s')"
    by (auto split: outcome.splits)
  from first r obtain p where p: "map_find name (mInvariants s) = Some p"
      and s1: "s1 = s\<lparr>mEnabled := mEnabled s @ [p]\<rparr>"
    using enableInvariant_Returns by blast
  from Cons.IH [OF rest] obtain ps
    where ps: "map Some ps = map (\<lambda>n. map_find n (mInvariants s1)) names"
      and s': "s' = s1\<lparr>mEnabled := mEnabled s1 @ ps\<rparr>"
    by blast
  have "map Some (p # ps) = map (\<lambda>n. map_find n (mInvariants s)) (name # names)"
    using p ps s1 by simp
  moreover have "s' = s\<lparr>mEnabled := mEnabled s @ p # ps\<rparr>"
    using s' s1 by simp
  ultimately show ?case by blast
qed

lemma invoked_dispatch:
  assumes "\<And>p. invoked [call p] = [p]"
  shows "invoked (newCalls s (snd (dispatch h call verdict message invs s))) =
         checked (halts h verdict) invs"
  using assms by (simp add: newCalls_dispatch invoked_stageEvents)

lemma dispatch_all:
  assumes "\<forall>p\<in>set invs. \<not> halts h verdict p"
  shows "fst (dispatch h call verdict message invs s) = Returns"
    and "checked (halts h verdict) invs = invs"
  using assms by (simp_all add: dispatch_eq find_none checked_all)

declare dispatch.simps [simp del]

subsection \<open>Failure handling\<close>

text \<open>
  C1: every violation event increments the counter named for the invariant exactly once,
  whether the invariant is strict or not (a counter that does not exist yet counts from
  zero). For a strict invariant a fatal record with the message is then logged and
  \<open>InvariantDoesNotHold\<close> is raised: the state at the raise already holds the increment and
  the fatal record, in this order. For a non-strict invariant an error record is logged and
  the handler returns. At each of the three stages a non-empty verdict is handed to the
  handler, with the stage's message, right after the call of the check.
\<close>

theorem failure_handler_counts_logs_then_raises:
  "onInvariantFailure h p message s =
     (if isStrict (h p) then Throws (InvariantDoesNotHold message) else Returns,
      s\<lparr>mMetricsRegistry :=
          (mMetricsRegistry s)(counterName (getName (h p)) \<mapsto>
             (case mMetricsRegistry s (counterName (getName (h p))) of
                None \<Rightarrow> 0 | Some c \<Rightarrow> c) + 1),
        calls := calls s @
          [CounterInc (counterName (getName (h p))),
           CLOG (if isStrict (h p) then FATAL else ERROR) message]\<rparr>)
   \<and> (Invariant_checkOnLedgerClose (h p) delta \<noteq> [] \<longrightarrow>
        checkOnLedgerClose_loop h ext txSet delta [p] s =
        onInvariantFailure h p (messageOnLedgerClose h ext txSet delta p)
          (s\<lparr>calls := calls s @ [CallCheckOnLedgerClose p]\<rparr>))
   \<and> (Invariant_checkOnBucketApply (h p) bucket oldest newest \<noteq> [] \<longrightarrow>
        checkOnBucketApply_loop h ext bucket level isCurr oldest newest [p] s =
        onInvariantFailure h p (messageOnBucketApply h ext bucket level isCurr oldest newest p)
          (s\<lparr>calls := calls s @ [CallCheckOnBucketApply p oldest newest]\<rparr>))
   \<and> (Invariant_checkOnOperationApply (h p) operation opres delta \<noteq> [] \<longrightarrow>
        checkOnOperationApply_loop h ext operation opres delta [p] s =
        onInvariantFailure h p (messageOnOperationApply h ext operation opres delta p)
          (s\<lparr>calls := calls s @ [CallCheckOnOperationApply p]\<rparr>))"
proof -
  have handler: "onInvariantFailure h p message s =
     (if isStrict (h p) then Throws (InvariantDoesNotHold message) else Returns,
      s\<lparr>mMetricsRegistry :=
          (mMetricsRegistry s)(counterName (getName (h p)) \<mapsto>
             (case mMetricsRegistry s (counterName (getName (h p))) of
                None \<Rightarrow> 0 | Some c \<Rightarrow> c) + 1),
        calls := calls s @
          [CounterInc (counterName (getName (h p))),
           CLOG (if isStrict (h p) then FATAL else ERROR) message]\<rparr>)"
    by (simp add: onInvariantFailure_eq inc_NewCounter failureEvents_def)
  have close: "Invariant_checkOnLedgerClose (h p) delta \<noteq> [] \<longrightarrow>
        checkOnLedgerClose_loop h ext txSet delta [p] s =
        onInvariantFailure h p (messageOnLedgerClose h ext txSet delta p)
          (s\<lparr>calls := calls s @ [CallCheckOnLedgerClose p]\<rparr>)"
    by (simp add: checkOnLedgerClose_loop_dispatch verdictOnLedgerClose_def onInvariantFailure_eq
        dispatch.simps Let_def)
  have bucket: "Invariant_checkOnBucketApply (h p) bucket oldest newest \<noteq> [] \<longrightarrow>
        checkOnBucketApply_loop h ext bucket level isCurr oldest newest [p] s =
        onInvariantFailure h p (messageOnBucketApply h ext bucket level isCurr oldest newest p)
          (s\<lparr>calls := calls s @ [CallCheckOnBucketApply p oldest newest]\<rparr>)"
    by (simp add: checkOnBucketApply_loop_dispatch verdictOnBucketApply_def onInvariantFailure_eq
        dispatch.simps Let_def)
  have operation: "Invariant_checkOnOperationApply (h p) operation opres delta \<noteq> [] \<longrightarrow>
        checkOnOperationApply_loop h ext operation opres delta [p] s =
        onInvariantFailure h p (messageOnOperationApply h ext operation opres delta p)
          (s\<lparr>calls := calls s @ [CallCheckOnOperationApply p]\<rparr>)"
    by (simp add: checkOnOperationApply_loop_dispatch verdictOnOperationApply_def onInvariantFailure_eq
        dispatch.simps Let_def)
  from handler close bucket operation show ?thesis by blast
qed

theorem failure_handler_witness:
  "onInvariantFailure ex_h 10 ''m'' (ex_manager [10, 20]) =
     (Throws (InvariantDoesNotHold ''m''),
      (ex_manager [10, 20])\<lparr>mMetricsRegistry := [counterName ''A'' \<mapsto> 1],
        calls := [CounterInc (counterName ''A''), CLOG FATAL ''m'']\<rparr>)
   \<and> onInvariantFailure ex_h 20 ''m'' (ex_manager [10, 20]) =
     (Returns,
      (ex_manager [10, 20])\<lparr>mMetricsRegistry := [counterName ''B'' \<mapsto> 1],
        calls := [CounterInc (counterName ''B''), CLOG ERROR ''m'']\<rparr>)
   \<and> Invariant_checkOnLedgerClose (ex_h 10) (ex_delta 9) \<noteq> []
   \<and> checkOnLedgerClose_loop ex_h ex_ext () (ex_delta 9) [10] (ex_manager [10]) =
     onInvariantFailure ex_h 10 (messageOnLedgerClose ex_h ex_ext () (ex_delta 9) 10)
       ((ex_manager [10])\<lparr>calls := calls (ex_manager [10]) @ [CallCheckOnLedgerClose 10]\<rparr>)
   \<and> Invariant_checkOnBucketApply (ex_h 20) () 5 8 \<noteq> []
   \<and> checkOnBucketApply_loop ex_h ex_ext () 3 True 5 8 [20] (ex_manager [20]) =
     onInvariantFailure ex_h 20 (messageOnBucketApply ex_h ex_ext () 3 True 5 8 20)
       ((ex_manager [20])\<lparr>calls := calls (ex_manager [20]) @ [CallCheckOnBucketApply 20 5 8]\<rparr>)
   \<and> Invariant_checkOnOperationApply (ex_h 10) () () (ex_delta 9) \<noteq> []
   \<and> checkOnOperationApply_loop ex_h ex_ext () () (ex_delta 9) [10] (ex_manager [10]) =
     onInvariantFailure ex_h 10 (messageOnOperationApply ex_h ex_ext () () (ex_delta 9) 10)
       ((ex_manager [10])\<lparr>calls := calls (ex_manager [10]) @ [CallCheckOnOperationApply 10]\<rparr>)"
proof -
  have v1: "Invariant_checkOnLedgerClose (ex_h 10) (ex_delta 9) \<noteq> []"
    and v2: "Invariant_checkOnBucketApply (ex_h 20) () 5 8 \<noteq> []"
    and v3: "Invariant_checkOnOperationApply (ex_h 10) () () (ex_delta 9) \<noteq> []"
    by (simp_all add: ex_h_def ex_invariant_def)
  have n: "getName (ex_h 10) = ''A''" "getName (ex_h 20) = ''B''"
    "isStrict (ex_h 10)" "\<not> isStrict (ex_h 20)"
    by (simp_all add: ex_h_def ex_invariant_def)
  have e: "mMetricsRegistry (ex_manager ps) = Map.empty" "calls (ex_manager ps) = []" for ps
    by (simp_all add: ex_manager_def)
  note T = failure_handler_counts_logs_then_raises
  have strict: "onInvariantFailure ex_h 10 ''m'' (ex_manager [10, 20]) =
     (Throws (InvariantDoesNotHold ''m''),
      (ex_manager [10, 20])\<lparr>mMetricsRegistry := [counterName ''A'' \<mapsto> 1],
        calls := [CounterInc (counterName ''A''), CLOG FATAL ''m'']\<rparr>)"
    using T [of ex_h 10 "''m''" "ex_manager [10, 20]", THEN conjunct1] by (simp add: n e)
  have lax: "onInvariantFailure ex_h 20 ''m'' (ex_manager [10, 20]) =
     (Returns,
      (ex_manager [10, 20])\<lparr>mMetricsRegistry := [counterName ''B'' \<mapsto> 1],
        calls := [CounterInc (counterName ''B''), CLOG ERROR ''m'']\<rparr>)"
    using T [of ex_h 20 "''m''" "ex_manager [10, 20]", THEN conjunct1] by (simp add: n e)
  note close =
    T [where h = ex_h and p = 10 and delta = "ex_delta 9" and ext = ex_ext and txSet = "()"
         and s = "ex_manager [10]",
       THEN conjunct2, THEN conjunct1, THEN mp, OF v1]
  note bucket =
    T [where h = ex_h and p = 20 and bucket = "()" and oldest = 5 and newest = 8
         and ext = ex_ext and level = 3 and isCurr = True and s = "ex_manager [20]",
       THEN conjunct2, THEN conjunct2, THEN conjunct1, THEN mp, OF v2]
  note operation =
    T [where h = ex_h and p = 10 and delta = "ex_delta 9" and ext = ex_ext
         and operation = "()" and opres = "()" and s = "ex_manager [10]",
       THEN conjunct2, THEN conjunct2, THEN conjunct2, THEN mp, OF v3]
  from strict lax v1 close v2 bucket v3 operation show ?thesis by blast
qed

subsection \<open>Dispatch\<close>

text \<open>
  C2, as amended: at each of the three stages the invariants checked are the enablement
  list up to and including the first strict invariant whose verdict is not empty. So the
  failure of a non-strict invariant never keeps the invariants after it from being checked:
  when no enabled invariant is strict with a non-empty verdict, the stage returns normally
  and has checked the whole enablement list, in order. (For operation apply, at ledger
  version 8 or above.)
\<close>

theorem non_strict_failure_does_not_stop_stage:
  "invoked (newCalls s (snd (checkOnLedgerClose h ext txSet delta s))) =
     checked (halts h (verdictOnLedgerClose h delta)) (mEnabled s)
   \<and> ((\<forall>p\<in>set (mEnabled s). \<not> halts h (verdictOnLedgerClose h delta) p) \<longrightarrow>
        fst (checkOnLedgerClose h ext txSet delta s) = Returns \<and>
        invoked (newCalls s (snd (checkOnLedgerClose h ext txSet delta s))) = mEnabled s)
   \<and> invoked (newCalls s (snd (checkOnBucketApply h ext bucket ledger level isCurr s))) =
     checked (halts h (verdictOnBucketApply h bucket (oldestLedgerOf ext ledger level isCurr)
                (newestLedgerOf ext ledger level isCurr))) (mEnabled s)
   \<and> ((\<forall>p\<in>set (mEnabled s).
          \<not> halts h (verdictOnBucketApply h bucket (oldestLedgerOf ext ledger level isCurr)
                (newestLedgerOf ext ledger level isCurr)) p) \<longrightarrow>
        fst (checkOnBucketApply h ext bucket ledger level isCurr s) = Returns \<and>
        invoked (newCalls s (snd (checkOnBucketApply h ext bucket ledger level isCurr s))) =
          mEnabled s)
   \<and> (8 \<le> ledgerVersion (getHeader delta) \<longrightarrow>
        invoked (newCalls s (snd (checkOnOperationApply h ext operation opres delta s))) =
          checked (halts h (verdictOnOperationApply h operation opres delta)) (mEnabled s))
   \<and> (8 \<le> ledgerVersion (getHeader delta) \<and>
        (\<forall>p\<in>set (mEnabled s). \<not> halts h (verdictOnOperationApply h operation opres delta) p) \<longrightarrow>
        fst (checkOnOperationApply h ext operation opres delta s) = Returns \<and>
        invoked (newCalls s (snd (checkOnOperationApply h ext operation opres delta s))) =
          mEnabled s)"
proof -
  have gate: "8 \<le> ledgerVersion (getHeader delta) \<Longrightarrow> \<not> ledgerVersion (getHeader delta) < 8"
    by simp
  show ?thesis
    by (simp add: checkOnLedgerClose_eq checkOnBucketApply_eq checkOnOperationApply_eq gate
        invoked_dispatch dispatch_all)
qed

theorem non_strict_failure_witness:
  "\<not> halts ex_h (verdictOnLedgerClose ex_h (ex_delta 9)) 20
   \<and> \<not> halts ex_h (verdictOnLedgerClose ex_h (ex_delta 9)) 30
   \<and> Invariant_checkOnLedgerClose (ex_h 20) (ex_delta 9) \<noteq> []
   \<and> fst (checkOnLedgerClose ex_h ex_ext () (ex_delta 9) (ex_manager [20, 30])) = Returns
   \<and> invoked (newCalls (ex_manager [20, 30])
        (snd (checkOnLedgerClose ex_h ex_ext () (ex_delta 9) (ex_manager [20, 30])))) = [20, 30]
   \<and> \<not> halts ex_h (verdictOnBucketApply ex_h () (oldestLedgerOf ex_ext 7 3 True)
            (newestLedgerOf ex_ext 7 3 True)) 20
   \<and> \<not> halts ex_h (verdictOnBucketApply ex_h () (oldestLedgerOf ex_ext 7 3 True)
            (newestLedgerOf ex_ext 7 3 True)) 30
   \<and> fst (checkOnBucketApply ex_h ex_ext () 7 3 True (ex_manager [20, 30])) = Returns
   \<and> invoked (newCalls (ex_manager [20, 30])
        (snd (checkOnBucketApply ex_h ex_ext () 7 3 True (ex_manager [20, 30])))) = [20, 30]
   \<and> (8::32 word) \<le> ledgerVersion (getHeader (ex_delta 9))
   \<and> \<not> halts ex_h (verdictOnOperationApply ex_h () () (ex_delta 9)) 20
   \<and> \<not> halts ex_h (verdictOnOperationApply ex_h () () (ex_delta 9)) 30
   \<and> fst (checkOnOperationApply ex_h ex_ext () () (ex_delta 9) (ex_manager [20, 30])) = Returns
   \<and> invoked (newCalls (ex_manager [20, 30])
        (snd (checkOnOperationApply ex_h ex_ext () () (ex_delta 9) (ex_manager [20, 30])))) =
       [20, 30]
   \<and> invoked (newCalls (ex_manager [20, 10, 30])
        (snd (checkOnOperationApply ex_h ex_ext () () (ex_delta 9) (ex_manager [20, 10, 30])))) =
       [20, 10]"
proof -
  have en: "mEnabled (ex_manager ps) = ps" for ps
    by (simp add: ex_manager_def)
  have h1: "\<forall>p\<in>set (mEnabled (ex_manager [20, 30])).
       \<not> halts ex_h (verdictOnLedgerClose ex_h (ex_delta 9)) p"
    and h2: "\<forall>p\<in>set (mEnabled (ex_manager [20, 30])).
       \<not> halts ex_h (verdictOnBucketApply ex_h () (oldestLedgerOf ex_ext 7 3 True)
            (newestLedgerOf ex_ext 7 3 True)) p"
    and h3: "\<forall>p\<in>set (mEnabled (ex_manager [20, 30])).
       \<not> halts ex_h (verdictOnOperationApply ex_h () () (ex_delta 9)) p"
    by (simp_all add: en halts_def ex_h_def ex_invariant_def verdictOnLedgerClose_def
        verdictOnBucketApply_def verdictOnOperationApply_def)
  have v: "Invariant_checkOnLedgerClose (ex_h 20) (ex_delta 9) \<noteq> []"
    by (simp add: ex_h_def ex_invariant_def)
  have g: "(8::32 word) \<le> ledgerVersion (getHeader (ex_delta 9))"
    by (simp add: ex_delta_def)
  have c: "checked (halts ex_h (verdictOnOperationApply ex_h () () (ex_delta 9))) [20, 10, 30] =
           [20, 10]"
    by (simp add: halts_def ex_h_def ex_invariant_def verdictOnOperationApply_def)
  note T = non_strict_failure_does_not_stop_stage
    [where h = ex_h and ext = ex_ext and delta = "ex_delta 9" and txSet = "()" and bucket = "()"
       and ledger = 7 and level = 3 and isCurr = True and operation = "()" and opres = "()"]
  note A = T [where s = "ex_manager [20, 30]"]
  note B = T [where s = "ex_manager [20, 10, 30]"]
  from h1 h2 h3 v g A B c show ?thesis
    by (simp add: en)
qed

text \<open>
  C2 as stated fails for a strict invariant: with the strict invariant at address 10
  enabled before the one at address 20, the non-empty verdict of the first raises out of
  the ledger-close stage and the check of the second is never called.
\<close>

theorem strict_failure_stops_stage_counterexample:
  "Invariant_checkOnLedgerClose (ex_h 10) (ex_delta 9) \<noteq> [] \<and>
   20 \<in> set (mEnabled (ex_manager [10, 20])) \<and>
   20 \<notin> set (invoked (newCalls (ex_manager [10, 20])
              (snd (checkOnLedgerClose ex_h ex_ext () (ex_delta 9) (ex_manager [10, 20])))))"
proof -
  have en: "mEnabled (ex_manager [10, 20]) = [10, 20]"
    by (simp add: ex_manager_def)
  have strict: "halts ex_h (verdictOnLedgerClose ex_h (ex_delta 9)) 10"
    by (simp add: halts_def verdictOnLedgerClose_def ex_h_def ex_invariant_def)
  have "invoked (newCalls (ex_manager [10, 20])
          (snd (checkOnLedgerClose ex_h ex_ext () (ex_delta 9) (ex_manager [10, 20])))) = [10]"
    by (simp add: checkOnLedgerClose_eq invoked_dispatch en strict)
  then show ?thesis
    by (simp add: en ex_h_def ex_invariant_def)
qed

lemma ex_configured_enabled:
  "mEnabled (ex_configured [''B'', ''A'', ''C'']) = [20, 10, 30]"
  "mEnabled (ex_configured [''B'', ''C'']) = [20, 30]"
  by (simp_all add: ex_configured_def run_def config_step_def registerInvariant_def
      enableInvariant_def InvariantManagerImpl_def Let_def ex_h_def ex_invariant_def)

lemma ex_h_facts:
  "isStrict (ex_h 10)" "\<not> isStrict (ex_h 20)" "isStrict (ex_h 30)"
  "Invariant_checkOnOperationApply (ex_h 10) operation opres delta = ''bad''"
  "Invariant_checkOnOperationApply (ex_h 20) operation opres delta = ''odd''"
  "Invariant_checkOnOperationApply (ex_h 30) operation opres delta = []"
  "Invariant_checkOnBucketApply (ex_h 10) bucket a b = ''bad''"
  "Invariant_checkOnBucketApply (ex_h 20) bucket a b = ''odd''"
  "Invariant_checkOnBucketApply (ex_h 30) bucket a b = []"
  by (simp_all add: ex_h_def ex_invariant_def)





text \<open>
  C3, as amended: below ledger version 8 the operation-apply stage returns at once and
  leaves the state as it is, so no check is called, no counter touched and nothing logged.
  At version 8 or above the stage runs as the other stages do, for strict and non-strict
  invariants alike: the checks called are those of the enablement list, in order, up to
  and including the first strict invariant whose verdict is not empty, and those of the
  whole list, with a normal return, when there is none; the outcome, the counters and the
  calls are those of the loop over the enablement list.
\<close>

theorem operation_checks_gated_by_version:
  "(ledgerVersion (getHeader delta) < 8 \<longrightarrow>
      checkOnOperationApply h ext operation opres delta s = (Returns, s))
   \<and> (8 \<le> ledgerVersion (getHeader delta) \<longrightarrow>
      invoked (newCalls s (snd (checkOnOperationApply h ext operation opres delta s))) =
        checked (halts h (verdictOnOperationApply h operation opres delta)) (mEnabled s)
      \<and> ((\<forall>p\<in>set (mEnabled s).
             \<not> halts h (verdictOnOperationApply h operation opres delta) p) \<longrightarrow>
           fst (checkOnOperationApply h ext operation opres delta s) = Returns \<and>
           invoked (newCalls s (snd (checkOnOperationApply h ext operation opres delta s))) =
             mEnabled s)
      \<and> (\<forall>ps p rest.
            mEnabled s = ps @ p # rest \<and>
            (\<forall>q\<in>set ps. \<not> halts h (verdictOnOperationApply h operation opres delta) q) \<longrightarrow>
            CallCheckOnOperationApply p \<in>
              set (newCalls s (snd (checkOnOperationApply h ext operation opres delta s))))
      \<and> checkOnOperationApply h ext operation opres delta s =
          (case List.find (halts h (verdictOnOperationApply h operation opres delta)) (mEnabled s) of
             None \<Rightarrow> Returns
           | Some p \<Rightarrow>
               Throws (InvariantDoesNotHold (messageOnOperationApply h ext operation opres delta p)),
           s\<lparr>mMetricsRegistry :=
               foldl (bump h (verdictOnOperationApply h operation opres delta))
                 (mMetricsRegistry s)
                 (checked (halts h (verdictOnOperationApply h operation opres delta)) (mEnabled s)),
             calls := calls s @
               concat (map (stageEvents h CallCheckOnOperationApply
                              (verdictOnOperationApply h operation opres delta)
                              (messageOnOperationApply h ext operation opres delta))
                 (checked (halts h (verdictOnOperationApply h operation opres delta))
                    (mEnabled s)))\<rparr>))"
proof -
  let ?v = "verdictOnOperationApply h operation opres delta"
  let ?r = "checkOnOperationApply h ext operation opres delta s"
  have below: "ledgerVersion (getHeader delta) < 8 \<longrightarrow> ?r = (Returns, s)"
    by (simp add: checkOnOperationApply_def)
  have above: "\<not> ledgerVersion (getHeader delta) < 8" if "8 \<le> ledgerVersion (getHeader delta)"
    using that by simp
  have inv: "invoked (newCalls s (snd ?r)) = checked (halts h ?v) (mEnabled s)"
    if "8 \<le> ledgerVersion (getHeader delta)"
    by (simp add: checkOnOperationApply_eq above [OF that] invoked_dispatch)
  have whole: "fst ?r = Returns \<and> invoked (newCalls s (snd ?r)) = mEnabled s"
    if "8 \<le> ledgerVersion (getHeader delta)" "\<forall>p\<in>set (mEnabled s). \<not> halts h ?v p"
    using that(2)
    by (simp add: checkOnOperationApply_eq above [OF that(1)] invoked_dispatch dispatch_all)
  have reach: "CallCheckOnOperationApply p \<in> set (newCalls s (snd ?r))"
    if "8 \<le> ledgerVersion (getHeader delta)" "mEnabled s = ps @ p # rest"
      "\<forall>q\<in>set ps. \<not> halts h ?v q" for ps p rest
  proof -
    have "p \<in> set (checked (halts h ?v) (mEnabled s))"
      using that(2,3) by (simp add: checked_reached)
    then have "CallCheckOnOperationApply p \<in>
        set (concat (map (stageEvents h CallCheckOnOperationApply ?v
               (messageOnOperationApply h ext operation opres delta))
             (checked (halts h ?v) (mEnabled s))))"
      by (rule call_in_stageEvents)
    then show ?thesis
      by (simp only: checkOnOperationApply_eq above [OF that(1)] newCalls_dispatch if_False)
  qed
  have closed: "?r =
          (case List.find (halts h ?v) (mEnabled s) of
             None \<Rightarrow> Returns
           | Some p \<Rightarrow>
               Throws (InvariantDoesNotHold (messageOnOperationApply h ext operation opres delta p)),
           s\<lparr>mMetricsRegistry :=
               foldl (bump h ?v) (mMetricsRegistry s) (checked (halts h ?v) (mEnabled s)),
             calls := calls s @
               concat (map (stageEvents h CallCheckOnOperationApply ?v
                              (messageOnOperationApply h ext operation opres delta))
                 (checked (halts h ?v) (mEnabled s)))\<rparr>)"
    if "8 \<le> ledgerVersion (getHeader delta)"
    by (simp add: checkOnOperationApply_eq above [OF that] dispatch_eq)
  from below inv whole reach closed show ?thesis
    by blast
qed

theorem operation_checks_gated_witness:
  "ledgerVersion (getHeader (ex_delta 7)) < 8
   \<and> checkOnOperationApply ex_h ex_ext () () (ex_delta 7) (ex_configured [''B'', ''A'', ''C'']) =
       (Returns, ex_configured [''B'', ''A'', ''C''])
   \<and> 8 \<le> ledgerVersion (getHeader (ex_delta 8))
   \<and> \<not> halts ex_h (verdictOnOperationApply ex_h () () (ex_delta 8)) 20
   \<and> \<not> halts ex_h (verdictOnOperationApply ex_h () () (ex_delta 8)) 30
   \<and> mEnabled (ex_configured [''B'', ''C'']) = [20, 30]
   \<and> fst (checkOnOperationApply ex_h ex_ext () () (ex_delta 8) (ex_configured [''B'', ''C''])) =
       Returns
   \<and> invoked (newCalls (ex_configured [''B'', ''C''])
        (snd (checkOnOperationApply ex_h ex_ext () () (ex_delta 8)
               (ex_configured [''B'', ''C''])))) = [20, 30]
   \<and> mEnabled (ex_configured [''B'', ''A'', ''C'']) = [20] @ 10 # [30]
   \<and> invoked (newCalls (ex_configured [''B'', ''A'', ''C''])
        (snd (checkOnOperationApply ex_h ex_ext () () (ex_delta 8)
               (ex_configured [''B'', ''A'', ''C''])))) = [20, 10]
   \<and> CallCheckOnOperationApply 10 \<in> set (newCalls (ex_configured [''B'', ''A'', ''C''])
        (snd (checkOnOperationApply ex_h ex_ext () () (ex_delta 8)
               (ex_configured [''B'', ''A'', ''C'']))))"
proof -
  let ?v = "verdictOnOperationApply ex_h () () (ex_delta 8)"
  have lo: "ledgerVersion (getHeader (ex_delta 7)) < 8"
    and hi: "8 \<le> ledgerVersion (getHeader (ex_delta 8))"
    by (simp_all add: ex_delta_def)
  have en3: "mEnabled (ex_configured [''B'', ''A'', ''C'']) = [20] @ 10 # [30]"
    and en2: "mEnabled (ex_configured [''B'', ''C'']) = [20, 30]"
    by (simp_all add: ex_configured_enabled)
  have h: "\<not> halts ex_h ?v 20" "\<not> halts ex_h ?v 30" "halts ex_h ?v 10"
    by (simp_all add: halts_def verdictOnOperationApply_def ex_h_facts)
  have lax1: "\<forall>q\<in>set [20]. \<not> halts ex_h ?v q"
    and lax2: "\<forall>p\<in>set (mEnabled (ex_configured [''B'', ''C''])). \<not> halts ex_h ?v p"
    by (simp_all add: en2 h)
  have c: "checked (halts ex_h ?v) (mEnabled (ex_configured [''B'', ''A'', ''C''])) = [20, 10]"
    by (simp add: en3 h)
  note T = operation_checks_gated_by_version
    [where h = ex_h and ext = ex_ext and operation = "()" and opres = "()"]
  note below = T [where delta = "ex_delta 7" and s = "ex_configured [''B'', ''A'', ''C'']",
      THEN conjunct1, THEN mp, OF lo]
  note above3 = T [where delta = "ex_delta 8" and s = "ex_configured [''B'', ''A'', ''C'']",
      THEN conjunct2, THEN mp, OF hi]
  note above2 = T [where delta = "ex_delta 8" and s = "ex_configured [''B'', ''C'']",
      THEN conjunct2, THEN mp, OF hi]
  note inv = above3 [THEN conjunct1, unfolded c]
  note whole = above2 [THEN conjunct2, THEN conjunct1, THEN mp, OF lax2]
  note reach = above3 [THEN conjunct2, THEN conjunct2, THEN conjunct1,
      THEN spec, THEN spec, THEN spec, THEN mp, OF conjI, OF en3 lax1]
  from lo hi below h(1,2) en2 whole en3 inv reach show ?thesis
    by simp
qed

text \<open>
  C3 as stated fails at version 8 for an enabled invariant that comes after a strict one
  whose verdict is not empty: with B, A and C enabled in this order on a manager built by
  its own operations, the strict A raises out of the stage and the check of C is never
  called.
\<close>

theorem operation_check_skipped_after_strict_failure_counterexample:
  "8 \<le> ledgerVersion (getHeader (ex_delta 8))
   \<and> 30 \<in> set (mEnabled (ex_configured [''B'', ''A'', ''C'']))
   \<and> Invariant_checkOnOperationApply (ex_h 10) () () (ex_delta 8) \<noteq> []
   \<and> isStrict (ex_h 10)
   \<and> 30 \<notin> set (invoked (newCalls (ex_configured [''B'', ''A'', ''C''])
        (snd (checkOnOperationApply ex_h ex_ext () () (ex_delta 8)
               (ex_configured [''B'', ''A'', ''C''])))))
   \<and> CallCheckOnOperationApply 30 \<notin> set (calls
        (snd (checkOnOperationApply ex_h ex_ext () () (ex_delta 8)
               (ex_configured [''B'', ''A'', ''C'']))))"
proof -
  let ?v = "verdictOnOperationApply ex_h () () (ex_delta 8)"
  let ?s = "ex_configured [''B'', ''A'', ''C'']"
  have hi: "\<not> ledgerVersion (getHeader (ex_delta 8)) < 8"
    by (simp add: ex_delta_def)
  have en: "mEnabled ?s = [20, 10, 30]"
    by (simp add: ex_configured_enabled)
  have quiet: "calls ?s = []"
    by (simp add: ex_configured_def run_def config_step_def registerInvariant_def
        enableInvariant_def InvariantManagerImpl_def Let_def ex_h_def ex_invariant_def)
  have h: "\<not> halts ex_h ?v 20" "halts ex_h ?v 10"
    by (simp_all add: halts_def verdictOnOperationApply_def ex_h_facts)
  have c: "checked (halts ex_h ?v) (mEnabled ?s) = [20, 10]"
    by (simp add: en h)
  have inv: "invoked (newCalls ?s (snd (checkOnOperationApply ex_h ex_ext () () (ex_delta 8) ?s))) =
        [20, 10]"
    by (simp add: checkOnOperationApply_eq hi invoked_dispatch c)
  have log: "CallCheckOnOperationApply 30 \<notin>
        set (calls (snd (checkOnOperationApply ex_h ex_ext () () (ex_delta 8) ?s)))"
    by (simp add: checkOnOperationApply_eq hi dispatch_eq c quiet stageEvents_def
        failureEvents_def)
  from hi en inv log show ?thesis
    by (simp add: ex_h_facts)
qed




lemma dispatch_Returns:
  assumes "fst (dispatch h call verdict message invs s) = Returns"
  shows "checked (halts h verdict) invs = invs"
proof -
  from assms have "List.find (halts h verdict) invs = None"
    by (simp add: dispatch_eq split: option.splits)
  then have "\<forall>p\<in>set invs. \<not> halts h verdict p"
    by (simp add: find_None_iff)
  then show ?thesis
    by (rule checked_all)
qed

text \<open>
  C5: a sequence of enable calls that all return appends the registered references of the
  names to the enablement list in the order of the calls, and at each of the three stages
  the checks are called along the enablement list from its head, with no gap and no swap:
  the invariants checked form a prefix of the list, and the whole list when the stage
  returns normally (for operation apply, at ledger version 8 or above). So a check is
  called only after the checks of all invariants enabled before it, and the order is a
  function of the enable order alone.
\<close>

theorem dispatch_order_is_enable_order:
  assumes "enableAll names s = (Returns, s')"
  shows "(\<exists>ps. mEnabled s' = mEnabled s @ ps \<and>
              map Some ps = map (\<lambda>n. map_find n (mInvariants s)) names)
    \<and> prefix (invoked (newCalls s' (snd (checkOnLedgerClose h ext txSet delta s'))))
           (mEnabled s')
    \<and> prefix (invoked (newCalls s'
             (snd (checkOnBucketApply h ext bucket ledger level isCurr s'))))
           (mEnabled s')
    \<and> prefix (invoked (newCalls s'
             (snd (checkOnOperationApply h ext operation opres delta s'))))
           (mEnabled s')
    \<and> (fst (checkOnLedgerClose h ext txSet delta s') = Returns \<longrightarrow>
         invoked (newCalls s' (snd (checkOnLedgerClose h ext txSet delta s'))) = mEnabled s')
    \<and> (fst (checkOnBucketApply h ext bucket ledger level isCurr s') = Returns \<longrightarrow>
         invoked (newCalls s' (snd (checkOnBucketApply h ext bucket ledger level isCurr s'))) =
         mEnabled s')
    \<and> (fst (checkOnOperationApply h ext operation opres delta s') = Returns \<and>
        8 \<le> ledgerVersion (getHeader delta) \<longrightarrow>
         invoked (newCalls s' (snd (checkOnOperationApply h ext operation opres delta s'))) =
         mEnabled s')"
proof -
  from enableAll_Returns [OF assms]
  have order: "\<exists>ps. mEnabled s' = mEnabled s @ ps \<and>
              map Some ps = map (\<lambda>n. map_find n (mInvariants s)) names"
    by auto
  have close: "prefix (invoked (newCalls s' (snd (checkOnLedgerClose h ext txSet delta s'))))
           (mEnabled s')"
    by (simp add: checkOnLedgerClose_eq invoked_dispatch checked_prefix)
  have bucket: "prefix (invoked (newCalls s'
             (snd (checkOnBucketApply h ext bucket ledger level isCurr s'))))
           (mEnabled s')"
    by (simp add: checkOnBucketApply_eq invoked_dispatch checked_prefix)
  have operation: "prefix (invoked (newCalls s'
             (snd (checkOnOperationApply h ext operation opres delta s'))))
           (mEnabled s')"
    by (simp add: checkOnOperationApply_eq invoked_dispatch checked_prefix newCalls_same)
  have close_all:
    "invoked (newCalls s' (snd (checkOnLedgerClose h ext txSet delta s'))) = mEnabled s'"
    if "fst (checkOnLedgerClose h ext txSet delta s') = Returns"
    using that by (simp add: checkOnLedgerClose_eq invoked_dispatch dispatch_Returns)
  have bucket_all:
    "invoked (newCalls s' (snd (checkOnBucketApply h ext bucket ledger level isCurr s'))) =
         mEnabled s'"
    if "fst (checkOnBucketApply h ext bucket ledger level isCurr s') = Returns"
    using that by (simp add: checkOnBucketApply_eq invoked_dispatch dispatch_Returns)
  have operation_all:
    "invoked (newCalls s' (snd (checkOnOperationApply h ext operation opres delta s'))) =
         mEnabled s'"
    if "fst (checkOnOperationApply h ext operation opres delta s') = Returns"
      "8 \<le> ledgerVersion (getHeader delta)"
  proof -
    from that(2) have "\<not> ledgerVersion (getHeader delta) < 8"
      by simp
    with that(1) show ?thesis
      by (simp add: checkOnOperationApply_eq invoked_dispatch dispatch_Returns)
  qed
  from order close bucket operation close_all bucket_all operation_all show ?thesis
    by blast
qed

theorem dispatch_order_witness:
  "enableAll [''C'', ''B'', ''A''] (ex_manager []) = (Returns, ex_manager [30, 20, 10])
   \<and> mEnabled (ex_manager [30, 20, 10]) = mEnabled (ex_manager []) @ [30, 20, 10]
   \<and> map Some [30, 20, 10] =
       map (\<lambda>n. map_find n (mInvariants (ex_manager []))) [''C'', ''B'', ''A'']
   \<and> prefix (invoked (newCalls (ex_manager [30, 20, 10])
         (snd (checkOnLedgerClose ex_h ex_ext () (ex_delta 9) (ex_manager [30, 20, 10])))))
       [30, 20, 10]
   \<and> prefix (invoked (newCalls (ex_manager [30, 20, 10])
         (snd (checkOnBucketApply ex_h ex_ext () 7 3 False (ex_manager [30, 20, 10])))))
       [30, 20, 10]
   \<and> prefix (invoked (newCalls (ex_manager [30, 20, 10])
         (snd (checkOnOperationApply ex_h ex_ext () () (ex_delta 9) (ex_manager [30, 20, 10])))))
       [30, 20, 10]
   \<and> enableAll [''C'', ''B''] (ex_manager []) = (Returns, ex_manager [30, 20])
   \<and> fst (checkOnLedgerClose ex_h ex_ext () (ex_delta 9) (ex_manager [30, 20])) = Returns
   \<and> invoked (newCalls (ex_manager [30, 20])
         (snd (checkOnLedgerClose ex_h ex_ext () (ex_delta 9) (ex_manager [30, 20])))) = [30, 20]
   \<and> fst (checkOnBucketApply ex_h ex_ext () 7 3 False (ex_manager [30, 20])) = Returns
   \<and> invoked (newCalls (ex_manager [30, 20])
         (snd (checkOnBucketApply ex_h ex_ext () 7 3 False (ex_manager [30, 20])))) = [30, 20]
   \<and> fst (checkOnOperationApply ex_h ex_ext () () (ex_delta 9) (ex_manager [30, 20])) = Returns
   \<and> 8 \<le> ledgerVersion (getHeader (ex_delta 9))
   \<and> invoked (newCalls (ex_manager [30, 20])
         (snd (checkOnOperationApply ex_h ex_ext () () (ex_delta 9) (ex_manager [30, 20])))) =
       [30, 20]"
proof -
  have run: "enableAll [''C'', ''B'', ''A''] (ex_manager []) = (Returns, ex_manager [30, 20, 10])"
    and run2: "enableAll [''C'', ''B''] (ex_manager []) = (Returns, ex_manager [30, 20])"
    by (simp_all add: enableInvariant_def ex_manager_def)
  have en: "mEnabled (ex_manager ps) = ps" for ps
    by (simp add: ex_manager_def)
  have reg: "map Some [30, 20, 10] =
       map (\<lambda>n. map_find n (mInvariants (ex_manager []))) [''C'', ''B'', ''A'']"
    by (simp add: ex_manager_def)
  have lax:
    "\<forall>p\<in>set (mEnabled (ex_manager [30, 20])).
       \<not> halts ex_h (verdictOnLedgerClose ex_h (ex_delta 9)) p"
    "\<forall>p\<in>set (mEnabled (ex_manager [30, 20])).
       \<not> halts ex_h (verdictOnBucketApply ex_h () (oldestLedgerOf ex_ext 7 3 False)
            (newestLedgerOf ex_ext 7 3 False)) p"
    "\<forall>p\<in>set (mEnabled (ex_manager [30, 20])).
       \<not> halts ex_h (verdictOnOperationApply ex_h () () (ex_delta 9)) p"
    by (simp_all add: en halts_def ex_h_def ex_invariant_def verdictOnLedgerClose_def
        verdictOnBucketApply_def verdictOnOperationApply_def)
  have g: "8 \<le> ledgerVersion (getHeader (ex_delta 9))"
    by (simp add: ex_delta_def)
  then have g': "\<not> ledgerVersion (getHeader (ex_delta 9)) < 8"
    by simp
  have ret: "fst (checkOnLedgerClose ex_h ex_ext () (ex_delta 9) (ex_manager [30, 20])) = Returns"
    "fst (checkOnBucketApply ex_h ex_ext () 7 3 False (ex_manager [30, 20])) = Returns"
    "fst (checkOnOperationApply ex_h ex_ext () () (ex_delta 9) (ex_manager [30, 20])) = Returns"
    using lax
    by (simp_all add: checkOnLedgerClose_eq checkOnBucketApply_eq checkOnOperationApply_eq g'
        dispatch_all)
  note T = dispatch_order_is_enable_order
    [where h = ex_h and ext = ex_ext and txSet = "()" and delta = "ex_delta 9"
       and bucket = "()" and ledger = 7 and level = 3 and isCurr = False
       and operation = "()" and opres = "()"]
  note A = T [OF run, THEN conjunct2]
  note B = T [OF run2, THEN conjunct2]
  from run reg A run2 ret g B show ?thesis
    by (simp add: en)
qed

subsection \<open>Registration and enablement\<close>

lemma map_find_assign_same: "map_find k (map_assign k v m) = Some v"
  by (induction m) auto

lemma map_find_assign_other: "n \<noteq> k \<Longrightarrow> map_find n (map_assign k v m) = map_find n m"
  by (induction m) auto

lemma map_find_None_iff: "map_find k m = None \<longleftrightarrow> k \<notin> set (map fst m)"
  by (induction m) (force split: if_splits)+

lemma map_find_Some_in: "map_find k m = Some v \<Longrightarrow> (k, v) \<in> set m"
  by (induction m) (auto split: if_splits)

lemma set_map_assign_fresh:
  "map_find k m = None \<Longrightarrow> set (map_assign k v m) = insert (k, v) (set m)"
  by (induction m) (auto split: if_splits)

lemma keys_map_assign: "set (map fst (map_assign k v m)) = insert k (set (map fst m))"
  by (induction m) (force split: if_splits)+

lemma sorted_map_assign:
  "sorted_wrt (<) (map fst m) \<Longrightarrow> sorted_wrt (<) (map fst (map_assign k v m))"
proof (induction m)
  case Nil
  show ?case by simp
next
  case (Cons e m)
  obtain k' v' where e: "e = (k', v')" by (cases e)
  from Cons.prems have after: "\<forall>x\<in>set (map fst m). k' < x" and rest: "sorted_wrt (<) (map fst m)"
    by (auto simp: e)
  show ?case
  proof (cases "k < k'")
    case True
    with after rest show ?thesis
      by (auto simp: e)
  next
    case False
    show ?thesis
    proof (cases "k = k'")
      case True
      with after rest show ?thesis by (auto simp: e)
    next
      case ne: False
      with False have "k' < k" by simp
      with after have "\<forall>x\<in>set (map fst (map_assign k v m)). k' < x"
        by (simp only: keys_map_assign) simp
      with False ne Cons.IH [OF rest] show ?thesis
        by (auto simp: e)
    qed
  qed
qed

lemma sorted_keys_unique:
  fixes m :: "(string \<times> 'v) list"
  assumes "sorted_wrt (<) (map fst m)" "(n, p) \<in> set m" "(n, q) \<in> set m"
  shows "p = q"
proof -
  from assms(1) have "distinct (map fst m)"
    by (simp add: strict_sorted_iff)
  with assms(2,3) show ?thesis
    by (meson eq_key_imp_eq_value)
qed

lemma joinNames_Cons:
  "joinNames (n # ns) = n @ (if ns = [] then [] else '', '' @ joinNames ns)"
  by (cases ns) simp_all

lemma accumulate_joinNames:
  "foldl (\<lambda>lhs rhs. lhs @ '', '' @ fst rhs) first rest = joinNames (first # map fst rest)"
proof (induction rest arbitrary: first)
  case Nil
  show ?case by simp
next
  case (Cons r rest)
  have "joinNames ((first @ '', '' @ fst r) # map fst rest) =
        joinNames (first # fst r # map fst rest)"
    by (simp add: joinNames_Cons)
  with Cons [of "first @ '', '' @ fst r"] show ?case
    by simp
qed

lemma registerInvariant_fresh:
  assumes "map_find (getName (h p)) (mInvariants s) = None"
  shows "registerInvariant h p s =
    (Returns,
     s\<lparr>mInvariants := map_assign (getName (h p)) p (mInvariants s),
       mMetricsRegistry := NewCounter (counterName (getName (h p))) (mMetricsRegistry s)\<rparr>)"
  using assms by (simp add: registerInvariant_def Let_def)

lemma registerInvariant_duplicate:
  assumes "map_find (getName (h p)) (mInvariants s) \<noteq> None"
  shows "registerInvariant h p s =
    (Throws (runtime_error (''Invariant '' @ getName (h p) @ '' already registered'')), s)"
  using assms by (auto simp: registerInvariant_def Let_def)

lemma enableInvariant_unknown:
  assumes "map_find name (mInvariants s) = None"
  shows "enableInvariant name s =
    (Throws (runtime_error (''Invariant '' @ name @ '' is not registered.'' @
       (if mInvariants s = [] then '' There are no registered invariants''
        else '' Registered invariants are: '' @ joinNames (map fst (mInvariants s))))), s)"
  using assms unfolding enableInvariant_def Let_def accumulate_joinNames
  by (cases "mInvariants s") simp_all

lemma enableInvariant_enabled:
  assumes "map_find name (mInvariants s) = Some p" "p \<in> set (mEnabled s)"
  shows "enableInvariant name s =
    (Throws (runtime_error (''Invariant '' @ name @ '' already enabled'')), s)"
proof -
  from assms(2) have "List.find (\<lambda>q. q = p) (mEnabled s) \<noteq> None"
    by (simp add: find_None_iff)
  with assms(1) show ?thesis
    by (auto simp: enableInvariant_def)
qed

lemma enableInvariant_new:
  assumes "map_find name (mInvariants s) = Some p" "p \<notin> set (mEnabled s)"
  shows "enableInvariant name s = (Returns, s\<lparr>mEnabled := mEnabled s @ [p]\<rparr>)"
proof -
  from assms(2) have "List.find (\<lambda>q. q = p) (mEnabled s) = None"
    by (simp add: find_None_iff)
  with assms(1) show ?thesis
    by (simp add: enableInvariant_def)
qed

lemma registerInvariant_Throws:
  assumes "registerInvariant h p s = (Throws e, s')"
  shows "s' = s \<and> map_find (getName (h p)) (mInvariants s) \<noteq> None \<and>
         e = runtime_error (''Invariant '' @ getName (h p) @ '' already registered'')"
  using assms by (auto simp: registerInvariant_def Let_def split: option.splits)

lemma enableInvariant_Throws:
  assumes "enableInvariant name s = (Throws e, s')"
  shows "s' = s"
  using assms by (auto simp: enableInvariant_def Let_def split: option.splits)

lemma manager_inv_register:
  assumes "manager_inv h s"
  shows "manager_inv h (snd (registerInvariant h p s))"
proof (cases "map_find (getName (h p)) (mInvariants s)")
  case None
  let ?m = "map_assign (getName (h p)) p (mInvariants s)"
  have set: "set ?m = insert (getName (h p), p) (set (mInvariants s))"
    using None by (rule set_map_assign_fresh)
  have "sorted_wrt (<) (map fst ?m)"
    using assms by (simp add: manager_inv_def sorted_map_assign)
  moreover have "list_all (\<lambda>(n, p). getName (h p) = n) ?m"
    using assms by (auto simp: manager_inv_def list_all_iff set)
  moreover have "set (mEnabled s) \<subseteq> snd ` set ?m"
    using assms by (auto simp: manager_inv_def set)
  moreover have "distinct (mEnabled s)"
    using assms by (simp add: manager_inv_def)
  ultimately show ?thesis
    using None by (simp add: registerInvariant_fresh manager_inv_def)
next
  case (Some q)
  then show ?thesis
    using assms by (simp add: registerInvariant_duplicate)
qed

lemma manager_inv_enable:
  assumes "manager_inv h s"
  shows "manager_inv h (snd (enableInvariant name s))"
proof (cases "map_find name (mInvariants s)")
  case None
  then show ?thesis
    using assms by (simp add: enableInvariant_unknown)
next
  case (Some p)
  show ?thesis
  proof (cases "p \<in> set (mEnabled s)")
    case True
    with Some assms show ?thesis
      by (simp add: enableInvariant_enabled)
  next
    case False
    from Some have "p \<in> snd ` set (mInvariants s)"
      by (force dest: map_find_Some_in)
    with False assms show ?thesis
      by (simp add: enableInvariant_new [OF Some False] manager_inv_def)
  qed
qed

lemma manager_inv_init: "manager_inv h (InvariantManagerImpl registry)"
  by (simp add: manager_inv_def InvariantManagerImpl_def)

lemma manager_inv_step: "manager_inv h s \<Longrightarrow> manager_inv h (config_step h s c)"
  by (cases c) (simp_all add: config_step_def manager_inv_register manager_inv_enable)

lemma manager_inv_run: "manager_inv h s \<Longrightarrow> manager_inv h (run h cs s)"
  unfolding run_def by (induction cs arbitrary: s) (simp_all add: manager_inv_step)

lemma counterName_inject: "counterName a = counterName b \<longleftrightarrow> a = b"
  by (simp add: counterName_def)

lemma NewCounter_apply:
  "NewCounter k reg k' = (if k' = k \<and> reg k = None then Some 0 else reg k')"
  by (simp add: NewCounter_def split: option.splits)

lemma counters_registered_register:
  assumes "counters_registered s"
  shows "counters_registered (snd (registerInvariant h p s))"
proof (cases "map_find (getName (h p)) (mInvariants s)")
  case None
  show ?thesis
    unfolding counters_registered_def
  proof (intro allI impI)
    fix n
    assume c: "mMetricsRegistry (snd (registerInvariant h p s)) (counterName n) \<noteq> None"
    show "map_find n (mInvariants (snd (registerInvariant h p s))) \<noteq> None"
    proof (cases "n = getName (h p)")
      case True
      with None show ?thesis
        by (simp add: registerInvariant_fresh map_find_assign_same)
    next
      case False
      with c None have "mMetricsRegistry s (counterName n) \<noteq> None"
        by (simp add: registerInvariant_fresh NewCounter_apply counterName_inject)
      with assms have "map_find n (mInvariants s) \<noteq> None"
        by (simp add: counters_registered_def)
      with False None show ?thesis
        by (simp add: registerInvariant_fresh map_find_assign_other)
    qed
  qed
next
  case (Some q)
  with assms show ?thesis
    by (simp add: registerInvariant_duplicate)
qed

lemma enableInvariant_members:
  "mInvariants (snd (enableInvariant name s)) = mInvariants s"
  "mMetricsRegistry (snd (enableInvariant name s)) = mMetricsRegistry s"
  "calls (snd (enableInvariant name s)) = calls s"
  by (simp_all add: enableInvariant_def Let_def split: option.splits)

lemma counters_registered_enable:
  "counters_registered s \<Longrightarrow> counters_registered (snd (enableInvariant name s))"
  by (simp add: counters_registered_def enableInvariant_members)

lemma counters_registered_run:
  "counters_registered s \<Longrightarrow> counters_registered (run h cs s)"
  unfolding run_def
proof (induction cs arbitrary: s)
  case Nil
  then show ?case by simp
next
  case (Cons c cs)
  have "counters_registered (config_step h s c)"
    using Cons.prems
    by (cases c) (simp_all add: config_step_def counters_registered_register
        counters_registered_enable)
  from Cons.IH [OF this] show ?case by simp
qed

lemma counters_registered_init:
  "\<forall>n. registry (counterName n) = None \<Longrightarrow> counters_registered (InvariantManagerImpl registry)"
  by (simp add: counters_registered_def InvariantManagerImpl_def)

lemma sorted_registry_names:
  assumes "sorted_wrt (<) (map fst (mInvariants s))"
  shows "map fst (mInvariants s) = sorted_list_of_set (registeredNames s)"
proof -
  from assms have "sorted (map fst (mInvariants s))" "distinct (map fst (mInvariants s))"
    by (simp_all add: strict_sorted_iff)
  then have "sorted_list_of_set (set (map fst (mInvariants s))) = map fst (mInvariants s)"
    by (rule sorted_list_of_set.idem_if_sorted_distinct)
  then show ?thesis
    by (simp add: registeredNames_def)
qed

text \<open>
  C6: registering an invariant whose name is already in the registry throws the
  \<^verbatim>\<open>runtime_error\<close> "Invariant <name> already registered" and changes nothing, whether the
  object is the registered one or another one of the same name. Under a fresh name the call
  returns, the registry maps the name to the reference and the other names as before, the
  enablement list is as before, and the counter of the name is created at zero when the
  metrics registry has none (it has none in every state built by configuration calls on a
  manager whose metrics registry had no invariant counters at construction); the other
  counters are as before. After that, any registration under the same name throws. Two
  invariants of distinct fresh names are both registered, and both can then be enabled.
\<close>

theorem register_rejects_duplicate_accepts_fresh:
  "(map_find (getName (h p)) (mInvariants s) \<noteq> None \<longrightarrow>
      registerInvariant h p s =
        (Throws (runtime_error (''Invariant '' @ getName (h p) @ '' already registered'')), s))
   \<and> (map_find (getName (h p)) (mInvariants s) = None \<longrightarrow>
      fst (registerInvariant h p s) = Returns
      \<and> map_find (getName (h p)) (mInvariants (snd (registerInvariant h p s))) = Some p
      \<and> (\<forall>n. n \<noteq> getName (h p) \<longrightarrow>
            map_find n (mInvariants (snd (registerInvariant h p s))) =
            map_find n (mInvariants s))
      \<and> mEnabled (snd (registerInvariant h p s)) = mEnabled s
      \<and> (mMetricsRegistry s (counterName (getName (h p))) = None \<longrightarrow>
            mMetricsRegistry (snd (registerInvariant h p s)) (counterName (getName (h p))) =
            Some 0)
      \<and> (\<forall>k. k \<noteq> counterName (getName (h p)) \<longrightarrow>
            mMetricsRegistry (snd (registerInvariant h p s)) k = mMetricsRegistry s k)
      \<and> (\<forall>q. getName (h q) = getName (h p) \<longrightarrow>
            registerInvariant h q (snd (registerInvariant h p s)) =
              (Throws (runtime_error (''Invariant '' @ getName (h p) @ '' already registered'')),
               snd (registerInvariant h p s))))
   \<and> ((\<forall>n. registry (counterName n) = None) \<and>
       s = run h cs (InvariantManagerImpl registry) \<and>
       map_find (getName (h p)) (mInvariants s) = None \<longrightarrow>
         mMetricsRegistry (snd (registerInvariant h p s)) (counterName (getName (h p))) =
         Some 0)
   \<and> (map_find (getName (h p)) (mInvariants s) = None \<and>
       map_find (getName (h r)) (mInvariants s) = None \<and>
       getName (h p) \<noteq> getName (h r) \<longrightarrow>
         fst (registerInvariant h r (snd (registerInvariant h p s))) = Returns
         \<and> map_find (getName (h p))
             (mInvariants (snd (registerInvariant h r (snd (registerInvariant h p s))))) = Some p
         \<and> map_find (getName (h r))
             (mInvariants (snd (registerInvariant h r (snd (registerInvariant h p s))))) = Some r
         \<and> (p \<notin> set (mEnabled s) \<and> r \<notin> set (mEnabled s) \<longrightarrow>
              fst (enableAll [getName (h p), getName (h r)]
                    (snd (registerInvariant h r (snd (registerInvariant h p s))))) = Returns
              \<and> mEnabled (snd (enableAll [getName (h p), getName (h r)]
                    (snd (registerInvariant h r (snd (registerInvariant h p s))))))
                  = mEnabled s @ [p, r]))"
proof -
  let ?n = "getName (h p)"
  let ?s1 = "snd (registerInvariant h p s)"
  have dup: "registerInvariant h p s =
        (Throws (runtime_error (''Invariant '' @ ?n @ '' already registered'')), s)"
    if "map_find ?n (mInvariants s) \<noteq> None"
    using that by (rule registerInvariant_duplicate)
  have fresh: "?s1 = s\<lparr>mInvariants := map_assign ?n p (mInvariants s),
       mMetricsRegistry := NewCounter (counterName ?n) (mMetricsRegistry s)\<rparr>"
    and ret: "fst (registerInvariant h p s) = Returns"
    if "map_find ?n (mInvariants s) = None"
    using that by (simp_all add: registerInvariant_fresh)
  have stored: "map_find ?n (mInvariants ?s1) = Some p"
    if "map_find ?n (mInvariants s) = None"
    by (simp add: fresh [OF that] map_find_assign_same)
  have others: "map_find n (mInvariants ?s1) = map_find n (mInvariants s)"
    if "map_find ?n (mInvariants s) = None" "n \<noteq> ?n" for n
    using that(2) by (simp add: fresh [OF that(1)] map_find_assign_other)
  have enabled: "mEnabled ?s1 = mEnabled s" if "map_find ?n (mInvariants s) = None"
    by (simp add: fresh [OF that])
  have zero: "mMetricsRegistry ?s1 (counterName ?n) = Some 0"
    if "map_find ?n (mInvariants s) = None" "mMetricsRegistry s (counterName ?n) = None"
    using that(2) by (simp add: fresh [OF that(1)] NewCounter_apply)
  have kept: "mMetricsRegistry ?s1 k = mMetricsRegistry s k"
    if "map_find ?n (mInvariants s) = None" "k \<noteq> counterName ?n" for k
    using that(2) by (simp add: fresh [OF that(1)] NewCounter_apply)
  have again: "registerInvariant h q ?s1 =
        (Throws (runtime_error (''Invariant '' @ ?n @ '' already registered'')), ?s1)"
    if "map_find ?n (mInvariants s) = None" "getName (h q) = ?n" for q
  proof -
    have "map_find (getName (h q)) (mInvariants ?s1) \<noteq> None"
      using stored [OF that(1)] that(2) by simp
    from registerInvariant_duplicate [where h = h and p = q, OF this] that(2) show ?thesis
      by simp
  qed
  have reach: "mMetricsRegistry ?s1 (counterName ?n) = Some 0"
    if "\<forall>n. registry (counterName n) = None" "s = run h cs (InvariantManagerImpl registry)"
      "map_find ?n (mInvariants s) = None"
  proof -
    have "counters_registered s"
      unfolding that(2) using that(1)
      by (intro counters_registered_run counters_registered_init)
    with that(3) have "mMetricsRegistry s (counterName ?n) = None"
      unfolding counters_registered_def by blast
    with that(3) show ?thesis
      by (rule zero)
  qed
  have two: "fst (registerInvariant h r ?s1) = Returns
         \<and> map_find ?n (mInvariants (snd (registerInvariant h r ?s1))) = Some p
         \<and> map_find (getName (h r)) (mInvariants (snd (registerInvariant h r ?s1))) = Some r
         \<and> (p \<notin> set (mEnabled s) \<and> r \<notin> set (mEnabled s) \<longrightarrow>
              fst (enableAll [?n, getName (h r)] (snd (registerInvariant h r ?s1))) = Returns
              \<and> mEnabled (snd (enableAll [?n, getName (h r)] (snd (registerInvariant h r ?s1))))
                  = mEnabled s @ [p, r])"
    if p: "map_find ?n (mInvariants s) = None"
      and r: "map_find (getName (h r)) (mInvariants s) = None"
      and ne: "?n \<noteq> getName (h r)"
  proof -
    let ?s2 = "snd (registerInvariant h r ?s1)"
    have r1: "map_find (getName (h r)) (mInvariants ?s1) = None"
      using others [OF p, of "getName (h r)"] ne r by simp
    have s2: "?s2 = ?s1\<lparr>mInvariants := map_assign (getName (h r)) r (mInvariants ?s1),
        mMetricsRegistry := NewCounter (counterName (getName (h r))) (mMetricsRegistry ?s1)\<rparr>"
      using r1 by (simp add: registerInvariant_fresh)
    have a: "fst (registerInvariant h r ?s1) = Returns"
      using r1 by (simp add: registerInvariant_fresh)
    have b: "map_find ?n (mInvariants ?s2) = Some p"
      using ne stored [OF p] by (simp add: s2 map_find_assign_other)
    have c: "map_find (getName (h r)) (mInvariants ?s2) = Some r"
      by (simp add: s2 map_find_assign_same)
    have en: "mEnabled ?s2 = mEnabled s"
      by (simp add: s2 enabled [OF p])
    have d: "fst (enableAll [?n, getName (h r)] ?s2) = Returns
              \<and> mEnabled (snd (enableAll [?n, getName (h r)] ?s2)) = mEnabled s @ [p, r]"
      if "p \<notin> set (mEnabled s)" "r \<notin> set (mEnabled s)"
    proof -
      have "p \<noteq> r" using ne by auto
      have e1: "enableInvariant ?n ?s2 = (Returns, ?s2\<lparr>mEnabled := mEnabled s @ [p]\<rparr>)"
        using b that(1) by (simp add: enableInvariant_new en)
      have e2: "enableInvariant (getName (h r)) (?s2\<lparr>mEnabled := mEnabled s @ [p]\<rparr>) =
          (Returns, ?s2\<lparr>mEnabled := mEnabled s @ [p, r]\<rparr>)"
        using c that(2) \<open>p \<noteq> r\<close> by (simp add: enableInvariant_new)
      show ?thesis
        by (simp add: e1 e2)
    qed
    from a b c d show ?thesis by blast
  qed
  from dup ret stored others enabled zero kept again reach two show ?thesis
    by blast
qed

theorem register_witness:
  "map_find (getName (ex_h 10)) (mInvariants (InvariantManagerImpl Map.empty)) = None
   \<and> registerInvariant ex_h 10 (InvariantManagerImpl Map.empty) =
       (Returns, \<lparr>mInvariants = [(''A'', 10)], mEnabled = [],
                  mMetricsRegistry = [counterName ''A'' \<mapsto> 0], calls = []\<rparr>)
   \<and> fst (registerInvariant ex_h 10 (InvariantManagerImpl Map.empty)) = Returns
   \<and> map_find (getName (ex_h 10))
        (mInvariants (snd (registerInvariant ex_h 10 (InvariantManagerImpl Map.empty)))) = Some 10
   \<and> mMetricsRegistry (snd (registerInvariant ex_h 10 (InvariantManagerImpl Map.empty)))
        (counterName (getName (ex_h 10))) = Some 0
   \<and> getName (ex_h 40) = getName (ex_h 10)
   \<and> registerInvariant ex_h 40 (snd (registerInvariant ex_h 10 (InvariantManagerImpl Map.empty))) =
       (Throws (runtime_error ''Invariant A already registered''),
        snd (registerInvariant ex_h 10 (InvariantManagerImpl Map.empty)))
   \<and> registerInvariant ex_h 10 (snd (registerInvariant ex_h 10 (InvariantManagerImpl Map.empty))) =
       (Throws (runtime_error ''Invariant A already registered''),
        snd (registerInvariant ex_h 10 (InvariantManagerImpl Map.empty)))
   \<and> map_find (getName (ex_h 20)) (mInvariants (InvariantManagerImpl Map.empty)) = None
   \<and> getName (ex_h 10) \<noteq> getName (ex_h 20)
   \<and> fst (registerInvariant ex_h 20
        (snd (registerInvariant ex_h 10 (InvariantManagerImpl Map.empty)))) = Returns
   \<and> mEnabled (snd (enableAll [getName (ex_h 10), getName (ex_h 20)]
        (snd (registerInvariant ex_h 20
           (snd (registerInvariant ex_h 10 (InvariantManagerImpl Map.empty))))))) = [10, 20]"
proof -
  let ?init = "InvariantManagerImpl Map.empty"
  let ?s1 = "snd (registerInvariant ex_h 10 ?init)"
  have n: "getName (ex_h 10) = ''A''" "getName (ex_h 40) = ''A''" "getName (ex_h 20) = ''B''"
    by (simp_all add: ex_h_def ex_invariant_def)
  have i: "mInvariants ?init = []" "mEnabled ?init = []" "mMetricsRegistry ?init = Map.empty"
    by (simp_all add: InvariantManagerImpl_def)
  have f10: "map_find (getName (ex_h 10)) (mInvariants ?init) = None"
    and f20: "map_find (getName (ex_h 20)) (mInvariants ?init) = None"
    by (simp_all add: i)
  have same: "getName (ex_h 40) = getName (ex_h 10)"
    and ne: "getName (ex_h 10) \<noteq> getName (ex_h 20)"
    by (simp_all add: n)
  have eval: "registerInvariant ex_h 10 ?init =
       (Returns, \<lparr>mInvariants = [(''A'', 10)], mEnabled = [],
                  mMetricsRegistry = [counterName ''A'' \<mapsto> 0], calls = []\<rparr>)"
    by (simp add: registerInvariant_def n InvariantManagerImpl_def NewCounter_def)
  note T = register_rejects_duplicate_accepts_fresh
    [where h = ex_h and p = 10 and s = ?init and r = 20 and registry = Map.empty and cs = "[]"]
  note fresh = T [THEN conjunct2, THEN conjunct1, THEN mp, OF f10]
  have init: "?init = run ex_h [] ?init"
    by (simp add: run_def)
  have "\<forall>n. (Map.empty :: MetricName \<rightharpoonup> int) (counterName n) = None"
    by simp
  with init f10 T have zero: "mMetricsRegistry ?s1 (counterName (getName (ex_h 10))) = Some 0"
    by blast
  from fresh same have again40: "registerInvariant ex_h 40 ?s1 =
       (Throws (runtime_error (''Invariant '' @ getName (ex_h 10) @ '' already registered'')), ?s1)"
    by blast
  from fresh have stored: "map_find (getName (ex_h 10)) (mInvariants ?s1) = Some 10"
    and ret: "fst (registerInvariant ex_h 10 ?init) = Returns"
    by blast+
  from stored have "map_find (getName (ex_h 10)) (mInvariants ?s1) \<noteq> None"
    by simp
  from register_rejects_duplicate_accepts_fresh
    [where h = ex_h and p = 10 and s = ?s1, THEN conjunct1, THEN mp, OF this]
  have again10: "registerInvariant ex_h 10 ?s1 =
       (Throws (runtime_error (''Invariant '' @ getName (ex_h 10) @ '' already registered'')), ?s1)" .
  have free: "10 \<notin> set (mEnabled ?init)" "20 \<notin> set (mEnabled ?init)"
    by (simp_all add: i)
  from T f10 f20 ne free
  have two: "fst (registerInvariant ex_h 20 ?s1) = Returns"
    "mEnabled (snd (enableAll [getName (ex_h 10), getName (ex_h 20)]
        (snd (registerInvariant ex_h 20 ?s1)))) = mEnabled ?init @ [10, 20]"
    by blast+
  have msg: "''Invariant '' @ getName (ex_h 10) @ '' already registered'' =
             ''Invariant A already registered''"
    by (simp add: n)
  from f10 eval ret stored zero same again40 again10 f20 ne two show ?thesis
    unfolding msg i by simp
qed

text \<open>
  C7: enabling a name that is not in the registry throws the \<^verbatim>\<open>runtime_error\<close>
  "Invariant <name> is not registered." followed by " Registered invariants are: " and
  the registered names separated by ", " when the registry is not empty, and by
  " There are no registered invariants" when it is; the state is unchanged. The names
  listed are exactly the registered ones, in ascending order of the keys of the map: the
  sorted list of the set of registered names, whatever the order of registration.
\<close>

theorem enable_unknown_name_lists_registered:
  "(map_find name (mInvariants s) = None \<longrightarrow>
      enableInvariant name s =
        (Throws (runtime_error (''Invariant '' @ name @ '' is not registered.'' @
           (if mInvariants s = [] then '' There are no registered invariants''
            else '' Registered invariants are: '' @ joinNames (map fst (mInvariants s))))), s))
   \<and> (\<forall>n. n \<in> set (map fst (mInvariants s)) \<longleftrightarrow> map_find n (mInvariants s) \<noteq> None)
   \<and> (sorted_wrt (<) (map fst (mInvariants s)) \<longrightarrow>
        map fst (mInvariants s) = sorted_list_of_set (registeredNames s))
   \<and> map fst (mInvariants (run h cs (InvariantManagerImpl registry))) =
       sorted_list_of_set (registeredNames (run h cs (InvariantManagerImpl registry)))"
proof -
  have unknown: "enableInvariant name s =
        (Throws (runtime_error (''Invariant '' @ name @ '' is not registered.'' @
           (if mInvariants s = [] then '' There are no registered invariants''
            else '' Registered invariants are: '' @ joinNames (map fst (mInvariants s))))), s)"
    if "map_find name (mInvariants s) = None"
    using that by (rule enableInvariant_unknown)
  have every: "n \<in> set (map fst (mInvariants s)) \<longleftrightarrow> map_find n (mInvariants s) \<noteq> None" for n
    using map_find_None_iff [of n "mInvariants s"] by auto
  have "manager_inv h (run h cs (InvariantManagerImpl registry))"
    by (intro manager_inv_run manager_inv_init)
  then have "sorted_wrt (<) (map fst (mInvariants (run h cs (InvariantManagerImpl registry))))"
    by (simp add: manager_inv_def)
  then have built: "map fst (mInvariants (run h cs (InvariantManagerImpl registry))) =
       sorted_list_of_set (registeredNames (run h cs (InvariantManagerImpl registry)))"
    by (rule sorted_registry_names)
  from unknown every sorted_registry_names [of s] built show ?thesis
    by blast
qed

theorem enable_unknown_name_witness:
  "map_find ''D'' (mInvariants (ex_manager [10])) = None
   \<and> enableInvariant ''D'' (ex_manager [10]) =
       (Throws (runtime_error
          ''Invariant D is not registered. Registered invariants are: A, B, C''),
        ex_manager [10])
   \<and> map_find ''D'' (mInvariants (InvariantManagerImpl Map.empty)) = None
   \<and> enableInvariant ''D'' (InvariantManagerImpl Map.empty) =
       (Throws (runtime_error
          ''Invariant D is not registered. There are no registered invariants''),
        InvariantManagerImpl Map.empty)
   \<and> sorted_wrt (<) (map fst (mInvariants (ex_manager [10])))
   \<and> sorted_list_of_set (registeredNames (ex_manager [10])) = [''A'', ''B'', ''C'']
   \<and> mInvariants (run ex_h [Register 30, Register 10, Register 20]
         (InvariantManagerImpl Map.empty)) = [(''A'', 10), (''B'', 20), (''C'', 30)]
   \<and> sorted_list_of_set (registeredNames (run ex_h [Register 30, Register 10, Register 20]
         (InvariantManagerImpl Map.empty))) = [''A'', ''B'', ''C'']"
proof -
  have m: "mInvariants (ex_manager [10]) = [(''A'', 10), (''B'', 20), (''C'', 30)]"
    by (simp add: ex_manager_def)
  have e: "mInvariants (InvariantManagerImpl Map.empty) = []"
    by (simp add: InvariantManagerImpl_def)
  have u1: "map_find ''D'' (mInvariants (ex_manager [10])) = None"
    and u2: "map_find ''D'' (mInvariants (InvariantManagerImpl Map.empty)) = None"
    and srt: "sorted_wrt (<) (map fst (mInvariants (ex_manager [10])))"
    by (simp_all add: m e)
  have n: "getName (ex_h 10) = ''A''" "getName (ex_h 30) = ''C''" "getName (ex_h 20) = ''B''"
    by (simp_all add: ex_h_def ex_invariant_def)
  have r: "mInvariants (run ex_h [Register 30, Register 10, Register 20]
         (InvariantManagerImpl Map.empty)) = [(''A'', 10), (''B'', 20), (''C'', 30)]"
    by (simp add: run_def config_step_def registerInvariant_def n InvariantManagerImpl_def
        Let_def)
  note T = enable_unknown_name_lists_registered
  from T [where s = "ex_manager [10]" and name = "''D''", THEN conjunct1] u1
  have a: "enableInvariant ''D'' (ex_manager [10]) =
       (Throws (runtime_error
          ''Invariant D is not registered. Registered invariants are: A, B, C''),
        ex_manager [10])"
    by (simp add: m)
  from T [where s = "InvariantManagerImpl Map.empty" and name = "''D''", THEN conjunct1] u2
  have b: "enableInvariant ''D'' (InvariantManagerImpl Map.empty) =
       (Throws (runtime_error
          ''Invariant D is not registered. There are no registered invariants''),
        InvariantManagerImpl Map.empty)"
    by (simp add: e)
  from T [where s = "ex_manager [10]", THEN conjunct2, THEN conjunct2, THEN conjunct1] srt
  have c: "sorted_list_of_set (registeredNames (ex_manager [10])) = [''A'', ''B'', ''C'']"
    by (simp add: m)
  from T [where h = ex_h and cs = "[Register 30, Register 10, Register 20]"
      and registry = Map.empty, THEN conjunct2, THEN conjunct2, THEN conjunct2]
  have d: "sorted_list_of_set (registeredNames (run ex_h [Register 30, Register 10, Register 20]
         (InvariantManagerImpl Map.empty))) = [''A'', ''B'', ''C'']"
    by (simp add: r)
  from u1 a u2 b srt c r d show ?thesis
    by blast
qed

text \<open>
  C8: enabling a registered name whose reference is already in the enablement list throws
  the \<^verbatim>\<open>runtime_error\<close> "Invariant <name> already enabled" and leaves the state, so the
  enablement list, as it is. In particular a second enable of a name right after a
  successful one throws, and a duplicate-free list stays duplicate-free.
\<close>

theorem enable_twice_rejected:
  "(map_find name (mInvariants s) = Some p \<and> p \<in> set (mEnabled s) \<longrightarrow>
      enableInvariant name s =
        (Throws (runtime_error (''Invariant '' @ name @ '' already enabled'')), s))
   \<and> (fst (enableInvariant name s) = Returns \<longrightarrow>
        enableInvariant name (snd (enableInvariant name s)) =
          (Throws (runtime_error (''Invariant '' @ name @ '' already enabled'')),
           snd (enableInvariant name s)))
   \<and> (fst (enableInvariant name s) = Returns \<and> distinct (mEnabled s) \<longrightarrow>
        distinct (mEnabled (snd (enableInvariant name (snd (enableInvariant name s))))))"
proof -
  have twice: "enableInvariant name s =
        (Throws (runtime_error (''Invariant '' @ name @ '' already enabled'')), s)"
    if "map_find name (mInvariants s) = Some p" "p \<in> set (mEnabled s)"
    using that by (rule enableInvariant_enabled)
  have after: "enableInvariant name (snd (enableInvariant name s)) =
          (Throws (runtime_error (''Invariant '' @ name @ '' already enabled'')),
           snd (enableInvariant name s))
        \<and> (distinct (mEnabled s) \<longrightarrow>
            distinct (mEnabled (snd (enableInvariant name (snd (enableInvariant name s))))))"
    if "fst (enableInvariant name s) = Returns"
  proof -
    from that have "enableInvariant name s = (Returns, snd (enableInvariant name s))"
      by (metis prod.collapse)
    from enableInvariant_Returns [OF this] obtain q
      where q: "map_find name (mInvariants s) = Some q" "q \<notin> set (mEnabled s)"
        and s1: "snd (enableInvariant name s) = s\<lparr>mEnabled := mEnabled s @ [q]\<rparr>"
      by blast
    have "enableInvariant name (s\<lparr>mEnabled := mEnabled s @ [q]\<rparr>) =
          (Throws (runtime_error (''Invariant '' @ name @ '' already enabled'')),
           s\<lparr>mEnabled := mEnabled s @ [q]\<rparr>)"
      using q(1) by (simp add: enableInvariant_enabled)
    with q(2) show ?thesis
      by (simp add: s1)
  qed
  from twice after show ?thesis
    by blast
qed

theorem enable_twice_witness:
  "map_find ''B'' (mInvariants (ex_manager [10, 20])) = Some 20
   \<and> 20 \<in> set (mEnabled (ex_manager [10, 20]))
   \<and> enableInvariant ''B'' (ex_manager [10, 20]) =
       (Throws (runtime_error ''Invariant B already enabled''), ex_manager [10, 20])
   \<and> enableInvariant ''B'' (ex_manager [10]) = (Returns, ex_manager [10, 20])
   \<and> fst (enableInvariant ''B'' (ex_manager [10])) = Returns
   \<and> distinct (mEnabled (ex_manager [10]))
   \<and> enableInvariant ''B'' (snd (enableInvariant ''B'' (ex_manager [10]))) =
       (Throws (runtime_error ''Invariant B already enabled''), ex_manager [10, 20])
   \<and> distinct (mEnabled (snd (enableInvariant ''B'' (snd (enableInvariant ''B''
        (ex_manager [10]))))))"
proof -
  have r: "map_find ''B'' (mInvariants (ex_manager [10, 20])) = Some 20"
    and e: "20 \<in> set (mEnabled (ex_manager [10, 20]))"
    and d: "distinct (mEnabled (ex_manager [10]))"
    by (simp_all add: ex_manager_def)
  have first: "enableInvariant ''B'' (ex_manager [10]) = (Returns, ex_manager [10, 20])"
    by (simp add: enableInvariant_def ex_manager_def)
  then have ret: "fst (enableInvariant ''B'' (ex_manager [10])) = Returns"
    by simp
  note T = enable_twice_rejected [where name = "''B''"]
  from T [where s = "ex_manager [10, 20]" and p = 20] r e
  have a: "enableInvariant ''B'' (ex_manager [10, 20]) =
       (Throws (runtime_error ''Invariant B already enabled''), ex_manager [10, 20])"
    by simp
  have msg: "''Invariant '' @ ''B'' @ '' already enabled'' = ''Invariant B already enabled''"
    by simp
  from T [where s = "ex_manager [10]" and p = 20, unfolded msg] ret d
  have b: "enableInvariant ''B'' (snd (enableInvariant ''B'' (ex_manager [10]))) =
       (Throws (runtime_error ''Invariant B already enabled''),
        snd (enableInvariant ''B'' (ex_manager [10])))"
    and c: "distinct (mEnabled (snd (enableInvariant ''B'' (snd (enableInvariant ''B''
        (ex_manager [10]))))))"
    by blast+
  from r e a first ret d b c show ?thesis
    by simp
qed

text \<open>
  C9: a \<^verbatim>\<open>registerInvariant\<close> call that throws (it does exactly when the name is
  registered) leaves the whole state as it was: registry, enablement list and metrics
  registry, so no counter is created. An \<^verbatim>\<open>enableInvariant\<close> call that throws (it does
  exactly when the name is unknown or its reference is enabled) leaves the whole state as
  it was, the registry and the enablement list in particular.
\<close>

theorem configuration_errors_leave_state:
  "(fst (registerInvariant h p s) \<noteq> Returns \<longrightarrow>
      snd (registerInvariant h p s) = s \<and>
      mInvariants (snd (registerInvariant h p s)) = mInvariants s \<and>
      mEnabled (snd (registerInvariant h p s)) = mEnabled s \<and>
      mMetricsRegistry (snd (registerInvariant h p s)) = mMetricsRegistry s)
   \<and> (fst (enableInvariant name s) \<noteq> Returns \<longrightarrow>
      snd (enableInvariant name s) = s \<and>
      mInvariants (snd (enableInvariant name s)) = mInvariants s \<and>
      mEnabled (snd (enableInvariant name s)) = mEnabled s)
   \<and> (fst (registerInvariant h p s) \<noteq> Returns \<longleftrightarrow>
        map_find (getName (h p)) (mInvariants s) \<noteq> None)
   \<and> (fst (enableInvariant name s) \<noteq> Returns \<longleftrightarrow>
        map_find name (mInvariants s) = None \<or>
        (\<exists>q. map_find name (mInvariants s) = Some q \<and> q \<in> set (mEnabled s)))"
proof -
  have reg: "snd (registerInvariant h p s) = s" if "fst (registerInvariant h p s) \<noteq> Returns"
  proof -
    from that obtain e where "registerInvariant h p s = (Throws e, snd (registerInvariant h p s))"
      by (metis outcome.exhaust prod.collapse)
    from registerInvariant_Throws [OF this] show ?thesis
      by simp
  qed
  have en: "snd (enableInvariant name s) = s" if "fst (enableInvariant name s) \<noteq> Returns"
  proof -
    from that obtain e where "enableInvariant name s = (Throws e, snd (enableInvariant name s))"
      by (metis outcome.exhaust prod.collapse)
    from enableInvariant_Throws [OF this] show ?thesis
      by simp
  qed
  have when_reg: "fst (registerInvariant h p s) \<noteq> Returns \<longleftrightarrow>
        map_find (getName (h p)) (mInvariants s) \<noteq> None"
    by (auto simp: registerInvariant_def Let_def split: option.splits)
  have when_en: "fst (enableInvariant name s) \<noteq> Returns \<longleftrightarrow>
        map_find name (mInvariants s) = None \<or>
        (\<exists>q. map_find name (mInvariants s) = Some q \<and> q \<in> set (mEnabled s))"
  proof (cases "map_find name (mInvariants s)")
    case None
    then show ?thesis
      by (simp add: enableInvariant_unknown)
  next
    case (Some q)
    then show ?thesis
      by (cases "q \<in> set (mEnabled s)")
        (simp_all add: enableInvariant_enabled enableInvariant_new)
  qed
  from reg en when_reg when_en show ?thesis
    by simp
qed

theorem configuration_errors_witness:
  "fst (registerInvariant ex_h 40 (ex_manager [10])) \<noteq> Returns
   \<and> registerInvariant ex_h 40 (ex_manager [10]) =
       (Throws (runtime_error ''Invariant A already registered''), ex_manager [10])
   \<and> snd (registerInvariant ex_h 40 (ex_manager [10])) = ex_manager [10]
   \<and> mMetricsRegistry (snd (registerInvariant ex_h 40 (ex_manager [10]))) (counterName ''A'') =
       None
   \<and> fst (enableInvariant ''D'' (ex_manager [10])) \<noteq> Returns
   \<and> snd (enableInvariant ''D'' (ex_manager [10])) = ex_manager [10]
   \<and> fst (enableInvariant ''A'' (ex_manager [10])) \<noteq> Returns
   \<and> snd (enableInvariant ''A'' (ex_manager [10])) = ex_manager [10]"
proof -
  have n: "getName (ex_h 40) = ''A''"
    by (simp add: ex_h_def ex_invariant_def)
  have r: "registerInvariant ex_h 40 (ex_manager [10]) =
       (Throws (runtime_error ''Invariant A already registered''), ex_manager [10])"
    by (simp add: registerInvariant_def n ex_manager_def)
  then have f1: "fst (registerInvariant ex_h 40 (ex_manager [10])) \<noteq> Returns"
    by simp
  have f2: "fst (enableInvariant ''D'' (ex_manager [10])) \<noteq> Returns"
    and f3: "fst (enableInvariant ''A'' (ex_manager [10])) \<noteq> Returns"
    by (simp_all add: enableInvariant_def ex_manager_def)
  note T = configuration_errors_leave_state [where s = "ex_manager [10]"]
  note a = T [where h = ex_h and p = 40, THEN conjunct1, THEN mp, OF f1]
  note b = T [where name = "''D''", THEN conjunct2, THEN conjunct1, THEN mp, OF f2]
  note c = T [where name = "''A''", THEN conjunct2, THEN conjunct1, THEN mp, OF f3]
  have m: "mMetricsRegistry (ex_manager [10]) (counterName ''A'') = None"
    by (simp add: ex_manager_def)
  from f1 r a m f2 b f3 c show ?thesis
    by simp
qed

text \<open>
  C10: the state after any sequence of \<^verbatim>\<open>registerInvariant\<close> and \<^verbatim>\<open>enableInvariant\<close>
  calls on a new manager, whether the calls return or throw, satisfies the manager's
  invariant; each of the two operations preserves it; and it says that every enabled
  reference is a value of the registry, that no reference is enabled twice, and that no
  name has two entries in the registry.
\<close>

theorem manager_invariant_preserved:
  "manager_inv h (run h cs (InvariantManagerImpl registry))
   \<and> (manager_inv h s \<longrightarrow>
        manager_inv h (snd (registerInvariant h p s)) \<and>
        manager_inv h (snd (enableInvariant name s)))
   \<and> (manager_inv h s \<longrightarrow>
        set (mEnabled s) \<subseteq> snd ` set (mInvariants s) \<and>
        distinct (mEnabled s) \<and>
        distinct (map fst (mInvariants s)) \<and>
        (\<forall>n a b. (n, a) \<in> set (mInvariants s) \<and> (n, b) \<in> set (mInvariants s) \<longrightarrow> a = b))"
proof -
  have built: "manager_inv h (run h cs (InvariantManagerImpl registry))"
    by (intro manager_inv_run manager_inv_init)
  have kept: "manager_inv h (snd (registerInvariant h p s)) \<and>
        manager_inv h (snd (enableInvariant name s))" if "manager_inv h s"
    using that by (simp add: manager_inv_register manager_inv_enable)
  have means: "set (mEnabled s) \<subseteq> snd ` set (mInvariants s) \<and>
        distinct (mEnabled s) \<and>
        distinct (map fst (mInvariants s)) \<and>
        (\<forall>n a b. (n, a) \<in> set (mInvariants s) \<and> (n, b) \<in> set (mInvariants s) \<longrightarrow> a = b)"
    if "manager_inv h s"
  proof -
    from that have srt: "sorted_wrt (<) (map fst (mInvariants s))"
      and sub: "set (mEnabled s) \<subseteq> snd ` set (mInvariants s)"
      and dis: "distinct (mEnabled s)"
      by (simp_all add: manager_inv_def)
    from srt have "distinct (map fst (mInvariants s))"
      by (simp add: strict_sorted_iff)
    moreover have "a = b" if "(n, a) \<in> set (mInvariants s)" "(n, b) \<in> set (mInvariants s)"
      for n a b
      using srt that by (rule sorted_keys_unique)
    ultimately show ?thesis
      using sub dis by blast
  qed
  from built kept means show ?thesis
    by blast
qed

theorem manager_invariant_witness:
  "mInvariants (run ex_h
       [Register 20, Register 10, Register 40, Enable ''B'', Enable ''B'', Enable ''Z'',
        Enable ''A''] (InvariantManagerImpl Map.empty)) = [(''A'', 10), (''B'', 20)]
   \<and> mEnabled (run ex_h
       [Register 20, Register 10, Register 40, Enable ''B'', Enable ''B'', Enable ''Z'',
        Enable ''A''] (InvariantManagerImpl Map.empty)) = [20, 10]
   \<and> manager_inv ex_h (run ex_h
       [Register 20, Register 10, Register 40, Enable ''B'', Enable ''B'', Enable ''Z'',
        Enable ''A''] (InvariantManagerImpl Map.empty))
   \<and> manager_inv ex_h (ex_manager [20])
   \<and> manager_inv ex_h (snd (registerInvariant ex_h 40 (ex_manager [20])))
   \<and> manager_inv ex_h (snd (enableInvariant ''A'' (ex_manager [20])))
   \<and> mEnabled (snd (enableInvariant ''A'' (ex_manager [20]))) = [20, 10]
   \<and> set (mEnabled (ex_manager [20])) \<subseteq> snd ` set (mInvariants (ex_manager [20]))
   \<and> distinct (mEnabled (ex_manager [20]))
   \<and> distinct (map fst (mInvariants (ex_manager [20])))"
proof -
  let ?cs = "[Register 20, Register 10, Register 40, Enable ''B'', Enable ''B'', Enable ''Z'',
        Enable ''A'']"
  have n: "getName (ex_h 10) = ''A''" "getName (ex_h 20) = ''B''" "getName (ex_h 30) = ''C''"
    "getName (ex_h 40) = ''A''"
    by (simp_all add: ex_h_def ex_invariant_def)
  have r: "mInvariants (run ex_h ?cs (InvariantManagerImpl Map.empty)) = [(''A'', 10), (''B'', 20)]"
    "mEnabled (run ex_h ?cs (InvariantManagerImpl Map.empty)) = [20, 10]"
    by (simp_all add: run_def config_step_def registerInvariant_def enableInvariant_def n
        InvariantManagerImpl_def Let_def)
  have w: "manager_inv ex_h (ex_manager [20])"
    by (simp add: manager_inv_def ex_manager_def n)
  have e: "mEnabled (snd (enableInvariant ''A'' (ex_manager [20]))) = [20, 10]"
    by (simp add: enableInvariant_def ex_manager_def)
  note T = manager_invariant_preserved [where h = ex_h]
  note built = T [where cs = ?cs and registry = Map.empty, THEN conjunct1]
  note kept = T [where s = "ex_manager [20]" and p = 40 and name = "''A''",
      THEN conjunct2, THEN conjunct1, THEN mp, OF w]
  note means = T [where s = "ex_manager [20]", THEN conjunct2, THEN conjunct2, THEN mp, OF w]
  from r built w kept e means show ?thesis
    by blast
qed

end
